theory Spec2Isabelle
  imports Main "HOL-Library.Multiset"
begin

section \<open>rec.ts: types with objects and equi-recursive types\<close>

text \<open>
  The \<open>Type\<close> union of rec.ts. \<open>Param\<close> and \<open>PropertyType\<close> are both
  \<open>{ name: string; type: Type }\<close>, modelled as pairs; \<open>params\<close> and \<open>props\<close> are
  arrays, modelled as lists (order and duplicates are kept, as in the source).
\<close>

datatype rtype =
    Boolean
  | Number
  | Func "(string \<times> rtype) list" rtype
  | Object "(string \<times> rtype) list"
  | Rec string rtype
  | TypeVar string

text \<open>What the source throws.\<close>

datatype error =
    UnknownTypeVariable string
  | Unreachable
  | InvalidTermType

lemma size_snd_less:
  "p \<in> set ps \<Longrightarrow> size (snd p) < size_list (\<lambda>x. Suc (size (snd x))) ps"
  by (induction ps) auto

lemma size_snd_less_Suc [termination_simp]:
  "p \<in> set ps \<Longrightarrow> size (snd p) < Suc (size_list (\<lambda>x. Suc (size (snd x))) ps)"
  by (drule size_snd_less) simp

lemma size_snd_less_prod:
  "p \<in> set ps \<Longrightarrow> size (snd p) < size_list (size_prod (\<lambda>x. 0) size) ps"
proof (induction ps)
  case Nil
  then show ?case by simp
next
  case (Cons q ps)
  then show ?case by (cases q) auto
qed

text \<open>\<open>expandType(type, typeVarName, repType)\<close>, rec.ts lines 67-104.\<close>

fun expandType :: "rtype \<Rightarrow> string \<Rightarrow> rtype \<Rightarrow> rtype" where
  "expandType Boolean typeVarName repType = Boolean"
| "expandType Number typeVarName repType = Number"
| "expandType (Func params retType) typeVarName repType =
     Func (map (\<lambda>p. (fst p, expandType (snd p) typeVarName repType)) params)
          (expandType retType typeVarName repType)"
| "expandType (Object props) typeVarName repType =
     Object (map (\<lambda>p. (fst p, expandType (snd p) typeVarName repType)) props)"
| "expandType (Rec name recType) typeVarName repType =
     (if name = typeVarName then Rec name recType
      else Rec name (expandType recType typeVarName repType))"
| "expandType (TypeVar name) typeVarName repType =
     (if name = typeVarName then repType else TypeVar name)"

text \<open>
  \<open>unwrapRecType\<close>, rec.ts lines 106-113. The recursion is not structural and need not
  end (the unfolding of a \<open>Rec\<close> can be a \<open>Rec\<close> again), so not returning is the
  value \<open>None\<close>.
\<close>

partial_function (option) unwrapRecType :: "rtype \<Rightarrow> rtype option" where
  "unwrapRecType type =
     (case type of
        Rec name recType \<Rightarrow> unwrapRecType (expandType recType name (Rec name recType))
      | _ \<Rightarrow> Some type)"

text \<open>
  A loop \<open>for (const x of xs) { if (!f(x)) return false; } return true\<close> whose test may
  throw: the first throw or the first \<open>false\<close> ends it.
\<close>

fun forEvery :: "('a \<Rightarrow> error + bool) \<Rightarrow> 'a list \<Rightarrow> error + bool" where
  "forEvery f [] = Inr True"
| "forEvery f (x # xs) =
     (case f x of
        Inl e \<Rightarrow> Inl e
      | Inr ok \<Rightarrow> if \<not> ok then Inr False else forEvery f xs)"

lemma forEvery_cong [fundef_cong]:
  "xs = ys \<Longrightarrow> (\<And>x. x \<in> set ys \<Longrightarrow> f x = g x) \<Longrightarrow> forEvery f xs = forEvery g ys"
  by (induction ys arbitrary: xs) (auto split: sum.splits)

text \<open>
  \<open>typeEqNaive(type1, type2, typeVarMap)\<close>, rec.ts lines 117-183. \<open>TypeVarNameMap\<close> is
  a \<open>Record<string, string>\<close>, modelled as a map of its own properties;
  \<open>typeVarMap[k] === undefined\<close> is \<open>typeVarMap k = None\<close> (a name that the object
  inherits from \<open>Object.prototype\<close>, such as \<open>toString\<close>, is outside the model). The
  parameter loop runs over the indices of \<open>type2.params\<close> after the lengths were found
  equal, so it is a loop over the zipped lists.
\<close>

function (sequential) typeEqNaive ::
  "rtype \<Rightarrow> rtype \<Rightarrow> (string \<rightharpoonup> string) \<Rightarrow> error + bool" where
  "typeEqNaive type1 Boolean typeVarMap = Inr (type1 = Boolean)"
| "typeEqNaive type1 Number typeVarMap = Inr (type1 = Number)"
| "typeEqNaive type1 (Func params2 retType2) typeVarMap =
     (case type1 of
        Func params1 retType1 \<Rightarrow>
          if length params1 \<noteq> length params2 then Inr False
          else (case forEvery (\<lambda>pp. typeEqNaive (snd (fst pp)) (snd (snd pp)) typeVarMap)
                       (zip params1 params2) of
                  Inl e \<Rightarrow> Inl e
                | Inr ok \<Rightarrow>
                    if \<not> ok then Inr False
                    else typeEqNaive retType1 retType2 typeVarMap)
      | _ \<Rightarrow> Inr False)"
| "typeEqNaive type1 (Object props2) typeVarMap =
     (case type1 of
        Object props1 \<Rightarrow>
          if length props1 \<noteq> length props2 then Inr False
          else forEvery (\<lambda>prop2.
                 case find (\<lambda>prop. fst prop = fst prop2) props1 of
                   None \<Rightarrow> Inr False
                 | Some prop1 \<Rightarrow> typeEqNaive (snd prop1) (snd prop2) typeVarMap) props2
      | _ \<Rightarrow> Inr False)"
| "typeEqNaive type1 (Rec name2 recType2) typeVarMap =
     (case type1 of
        Rec name1 recType1 \<Rightarrow> typeEqNaive recType1 recType2 (typeVarMap(name1 \<mapsto> name2))
      | _ \<Rightarrow> Inr False)"
| "typeEqNaive type1 (TypeVar name2) typeVarMap =
     (case type1 of
        TypeVar name1 \<Rightarrow>
          (case typeVarMap name1 of
             None \<Rightarrow> Inl (UnknownTypeVariable name1)
           | Some n \<Rightarrow> Inr (n = name2))
      | _ \<Rightarrow> Inr False)"
  by pat_completeness auto

termination
proof (relation "measure (\<lambda>(type1, type2, typeVarMap). size type2)")
  fix params2 :: "(string \<times> rtype) list" and pp :: "(string \<times> rtype) \<times> (string \<times> rtype)"
    and params1 :: "(string \<times> rtype) list"
  assume "pp \<in> set (zip params1 params2)"
  then have "snd pp \<in> set params2"
    using set_zip_rightD [of "fst pp" "snd pp" params1 params2] by simp
  then show "((snd (fst pp), snd (snd pp), typeVarMap), type1, Func params2 retType2, typeVarMap)
      \<in> measure (\<lambda>(type1, type2, typeVarMap). size type2)"
    for type1 retType2 and typeVarMap :: "string \<rightharpoonup> string"
    using size_snd_less_prod [of "snd pp" params2] by simp
qed (auto dest: size_snd_less_prod)

text \<open>
  \<open>hasSeen\<close>, rec.ts lines 187-197. \<open>&&\<close> evaluates its right operand only when the left
  one is \<open>true\<close>; a throw of either operand leaves the loop.
\<close>

fun hasSeen :: "rtype \<Rightarrow> rtype \<Rightarrow> (rtype \<times> rtype) list \<Rightarrow> error + bool" where
  "hasSeen type1 type2 [] = Inr False"
| "hasSeen type1 type2 ((seenType1, seenType2) # seen) =
     (case typeEqNaive seenType1 type1 Map.empty of
        Inl e \<Rightarrow> Inl e
      | Inr eq1 \<Rightarrow>
          if \<not> eq1 then hasSeen type1 type2 seen
          else (case typeEqNaive seenType2 type2 Map.empty of
                  Inl e \<Rightarrow> Inl e
                | Inr eq2 \<Rightarrow> if eq2 then Inr True else hasSeen type1 type2 seen))"

text \<open>The same loop for a test that may also not return.\<close>

fun forEveryO :: "('a \<Rightarrow> (error + bool) option) \<Rightarrow> 'a list \<Rightarrow> (error + bool) option" where
  "forEveryO f [] = Some (Inr True)"
| "forEveryO f (x # xs) =
     (case f x of
        None \<Rightarrow> None
      | Some (Inl e) \<Rightarrow> Some (Inl e)
      | Some (Inr ok) \<Rightarrow> if \<not> ok then Some (Inr False) else forEveryO f xs)"

lemma forEveryO_mono [partial_function_mono]:
  fixes F :: "('b \<Rightarrow> 'c option) \<Rightarrow> 'a \<Rightarrow> (error + bool) option"
  assumes "\<And>x. mono_option (\<lambda>f. F f x)"
  shows "mono_option (\<lambda>f. forEveryO (F f) xs)"
proof (induction xs)
  case Nil
  show ?case by (simp add: option.const_mono)
next
  case (Cons x xs)
  show ?case
  proof (rule monotoneI)
    fix f g :: "'b \<Rightarrow> 'c option"
    assume fg: "fun_ord option_ord f g"
    have hd: "option_ord (F f x) (F g x)"
      using assms [of x] fg unfolding monotone_def by blast
    have tl: "option_ord (forEveryO (F f) xs) (forEveryO (F g) xs)"
      using Cons fg unfolding monotone_def by blast
    show "option_ord (forEveryO (F f) (x # xs)) (forEveryO (F g) (x # xs))"
      using hd tl
      by (cases "F f x"; cases "F g x")
         (auto simp: flat_ord_def split: sum.splits)
  qed
qed

text \<open>\<open>type.tag === "Rec"\<close>\<close>

fun isRec :: "rtype \<Rightarrow> bool" where
  "isRec (Rec name recType) = True"
| "isRec type = False"

text \<open>
  \<open>typeEqSub(type1, type2, seen)\<close>, rec.ts lines 199-263. The recursion goes through
  \<open>unwrapRecType\<close> and need not end, so the result is an option: \<open>None\<close> when the call
  does not return, \<open>Some (Inl e)\<close> when it throws, \<open>Some (Inr b)\<close> when it returns \<open>b\<close>.
  The \<open>switch\<close> on \<open>type2.tag\<close> has no \<open>"Rec"\<close> case: that tag would fall to
  \<open>default\<close>, which throws.
\<close>

partial_function (option) typeEqSub ::
  "rtype \<Rightarrow> rtype \<Rightarrow> (rtype \<times> rtype) list \<Rightarrow> (error + bool) option" where
  "typeEqSub type1 type2 seen =
     (case hasSeen type1 type2 seen of
        Inl e \<Rightarrow> Some (Inl e)
      | Inr found \<Rightarrow>
          if found then Some (Inr True)
          else if isRec type1 then
            Option.bind (unwrapRecType type1)
              (\<lambda>t. typeEqSub t type2 (seen @ [(type1, type2)]))
          else if isRec type2 then
            Option.bind (unwrapRecType type2)
              (\<lambda>t. typeEqSub type1 t (seen @ [(type1, type2)]))
          else
         (case type2 of
            Boolean \<Rightarrow> Some (Inr (type1 = Boolean))
          | Number \<Rightarrow> Some (Inr (type1 = Number))
          | Func params2 retType2 \<Rightarrow>
              (case type1 of
                 Func params1 retType1 \<Rightarrow>
                   if length params1 \<noteq> length params2 then Some (Inr False)
                   else Option.bind
                          (forEveryO (\<lambda>pp. typeEqSub (snd (fst pp)) (snd (snd pp)) seen)
                             (zip params1 params2))
                          (\<lambda>r. case r of
                                 Inl e \<Rightarrow> Some (Inl e)
                               | Inr ok \<Rightarrow>
                                   if \<not> ok then Some (Inr False)
                                   else typeEqSub retType1 retType2 seen)
               | _ \<Rightarrow> Some (Inr False))
          | Object props2 \<Rightarrow>
              (case type1 of
                 Object props1 \<Rightarrow>
                   if length props1 \<noteq> length props2 then Some (Inr False)
                   else forEveryO (\<lambda>prop2.
                          case find (\<lambda>prop. fst prop = fst prop2) props1 of
                            None \<Rightarrow> Some (Inr False)
                          | Some prop1 \<Rightarrow> typeEqSub (snd prop1) (snd prop2) seen) props2
               | _ \<Rightarrow> Some (Inr False))
          | TypeVar name2 \<Rightarrow> Some (Inl Unreachable)
          | Rec name2 recType2 \<Rightarrow> Some (Inl InvalidTermType)))"


text \<open>\<open>typeEq\<close>, rec.ts lines 265-267.\<close>

definition typeEq :: "rtype \<Rightarrow> rtype \<Rightarrow> (error + bool) option" where
  "typeEq type1 type2 = typeEqSub type1 type2 []"

section \<open>poly.ts: type abstraction\<close>

text \<open>The \<open>Type\<close> union of poly.ts.\<close>

datatype ptype =
    PBoolean
  | PNumber
  | PFunc "(string \<times> ptype) list" ptype
  | PTypeAbs "string list" ptype
  | PTypeVar string

text \<open>\<open>substitute(targetType, typeVarName, concreteType)\<close>, poly.ts lines 54-79.\<close>

fun substitute :: "ptype \<Rightarrow> string \<Rightarrow> ptype \<Rightarrow> ptype" where
  "substitute PBoolean typeVarName concreteType = PBoolean"
| "substitute PNumber typeVarName concreteType = PNumber"
| "substitute (PFunc params retType) typeVarName concreteType =
     PFunc (map (\<lambda>p. (fst p, substitute (snd p) typeVarName concreteType)) params)
           (substitute retType typeVarName concreteType)"
| "substitute (PTypeAbs typeParams type) typeVarName concreteType =
     PTypeAbs typeParams (substitute type typeVarName concreteType)"
| "substitute (PTypeVar name) typeVarName concreteType =
     (if name = typeVarName then concreteType else PTypeVar name)"

text \<open>
  \<open>typeEqRec(type1, type2, typeVarMap)\<close>, poly.ts lines 83-138. In the \<open>"TypeAbs"\<close>
  case the loop \<open>newTypeVarMap[type1.typeParams[i]] = type2.typeParams[i]\<close> runs
  after the lengths were found equal, so it is a fold over the zipped lists.
\<close>

function (sequential) typeEqRec ::
  "ptype \<Rightarrow> ptype \<Rightarrow> (string \<rightharpoonup> string) \<Rightarrow> error + bool" where
  "typeEqRec type1 PBoolean typeVarMap = Inr (type1 = PBoolean)"
| "typeEqRec type1 PNumber typeVarMap = Inr (type1 = PNumber)"
| "typeEqRec type1 (PFunc params2 retType2) typeVarMap =
     (case type1 of
        PFunc params1 retType1 \<Rightarrow>
          if length params1 \<noteq> length params2 then Inr False
          else (case forEvery (\<lambda>pp. typeEqRec (snd (fst pp)) (snd (snd pp)) typeVarMap)
                       (zip params1 params2) of
                  Inl e \<Rightarrow> Inl e
                | Inr ok \<Rightarrow>
                    if \<not> ok then Inr False
                    else typeEqRec retType1 retType2 typeVarMap)
      | _ \<Rightarrow> Inr False)"
| "typeEqRec type1 (PTypeAbs typeParams2 body2) typeVarMap =
     (case type1 of
        PTypeAbs typeParams1 body1 \<Rightarrow>
          if length typeParams1 \<noteq> length typeParams2 then Inr False
          else typeEqRec body1 body2
                 (foldl (\<lambda>m tp. m(fst tp \<mapsto> snd tp)) typeVarMap (zip typeParams1 typeParams2))
      | _ \<Rightarrow> Inr False)"
| "typeEqRec type1 (PTypeVar name2) typeVarMap =
     (case type1 of
        PTypeVar name1 \<Rightarrow>
          (case typeVarMap name1 of
             None \<Rightarrow> Inl (UnknownTypeVariable name1)
           | Some n \<Rightarrow> Inr True)
      | _ \<Rightarrow> Inr False)"
  by pat_completeness auto

termination
proof (relation "measure (\<lambda>(type1, type2, typeVarMap). size type2)")
  fix params2 :: "(string \<times> ptype) list" and pp :: "(string \<times> ptype) \<times> (string \<times> ptype)"
    and params1 :: "(string \<times> ptype) list"
  assume "pp \<in> set (zip params1 params2)"
  then have "snd pp \<in> set params2"
    using set_zip_rightD [of "fst pp" "snd pp" params1 params2] by simp
  then show "((snd (fst pp), snd (snd pp), typeVarMap), type1, PFunc params2 retType2, typeVarMap)
      \<in> measure (\<lambda>(type1, type2, typeVarMap). size type2)"
    for type1 retType2 and typeVarMap :: "string \<rightharpoonup> string"
    using size_snd_less_prod [of "snd pp" params2] by simp
qed auto

text \<open>
  The type variables that occur free in a poly.ts type: a type abstraction binds its type
  parameters in its body.
\<close>

fun freeTypeVars :: "ptype \<Rightarrow> string set" where
  "freeTypeVars PBoolean = {}"
| "freeTypeVars PNumber = {}"
| "freeTypeVars (PFunc params retType) =
     (\<Union>p \<in> set params. freeTypeVars (snd p)) \<union> freeTypeVars retType"
| "freeTypeVars (PTypeAbs typeParams type) = freeTypeVars type - set typeParams"
| "freeTypeVars (PTypeVar name) = {name}"

section \<open>sub.ts: subtyping\<close>

text \<open>
  The \<open>Type\<close> of sub.ts, as sub.test.ts builds it with \<open>boolean\<close>, \<open>number\<close>,
  \<open>fn\<close>, \<open>param\<close> and \<open>object\<close>.
\<close>

datatype stype =
    SubBoolean
  | SubNumber
  | SubFunc "(string \<times> stype) list" stype
  | SubObject "(string \<times> stype) list"

text \<open>
  Modelled from the spec: \<open>subtype(sub, sup)\<close> of sub.ts, which sub.test.ts imports
  and whose source file is missing. It follows section 4.3, Operation C: primitives are
  subtypes iff identical; a record is a subtype iff for every field of \<open>sup\<close> there is
  a same-named field of \<open>sub\<close> whose type is a subtype; a function is a subtype iff
  the parameter counts are equal, the return types are in the same direction and the
  parameter types, position by position, in the reverse direction.
\<close>

function (sequential) subtype :: "stype \<Rightarrow> stype \<Rightarrow> bool" where
  "subtype sub SubBoolean = (sub = SubBoolean)"
| "subtype sub SubNumber = (sub = SubNumber)"
| "subtype sub (SubObject props2) =
     (case sub of
        SubObject props1 \<Rightarrow>
          (\<forall>prop2 \<in> set props2.
             \<exists>prop1 \<in> set props1. fst prop1 = fst prop2 \<and> subtype (snd prop1) (snd prop2))
      | _ \<Rightarrow> False)"
| "subtype sub (SubFunc params2 retType2) =
     (case sub of
        SubFunc params1 retType1 \<Rightarrow>
          if length params1 \<noteq> length params2 then False
          else subtype retType1 retType2 \<and>
               (\<forall>pp \<in> set (zip params1 params2). subtype (snd (snd pp)) (snd (fst pp)))
      | _ \<Rightarrow> False)"
  by pat_completeness auto

termination
proof (relation "measure (\<lambda>(sub, sup). size sub + size sup)", goal_cases)
  case 1
  show ?case by simp
next
  case (2 sub props2 props1 prop2 prop1)
  then show ?case
    using size_snd_less_prod [of prop1 props1] size_snd_less_prod [of prop2 props2] by simp
next
  case (3 sub params2 retType2 params1 retType1)
  then show ?case by simp
next
  case (4 sub params2 retType2 params1 retType1 pp)
  then have "fst pp \<in> set params1" "snd pp \<in> set params2"
    using set_zip_leftD [of "fst pp" "snd pp" params1 params2]
      set_zip_rightD [of "fst pp" "snd pp" params1 params2] by simp_all
  then show ?case
    using 4 size_snd_less_prod [of "fst pp" params1] size_snd_less_prod [of "snd pp" params2]
    by simp
qed

section \<open>Well-formed types\<close>

text \<open>The type variables that occur free in a type: \<open>Rec name\<close> binds \<open>name\<close> in its body.\<close>

fun freeVars :: "rtype \<Rightarrow> string set" where
  "freeVars Boolean = {}"
| "freeVars Number = {}"
| "freeVars (Func params retType) = (\<Union>p \<in> set params. freeVars (snd p)) \<union> freeVars retType"
| "freeVars (Object props) = (\<Union>p \<in> set props. freeVars (snd p))"
| "freeVars (Rec name recType) = freeVars recType - {name}"
| "freeVars (TypeVar name) = {name}"

text \<open>The data-model invariant that the field names of every record are unique.\<close>

fun uniqueFields :: "rtype \<Rightarrow> bool" where
  "uniqueFields (Func params retType) =
     ((\<forall>p \<in> set params. uniqueFields (snd p)) \<and> uniqueFields retType)"
| "uniqueFields (Object props) =
     (distinct (map fst props) \<and> (\<forall>p \<in> set props. uniqueFields (snd p)))"
| "uniqueFields (Rec name recType) = uniqueFields recType"
| "uniqueFields type = True"

text \<open>
  A type is contractive when the body of every \<open>Rec\<close>, below any further \<open>Rec\<close>
  binders, is not a bare type variable; \<open>Rec X. X\<close> and \<open>Rec X. Rec Y. X\<close> are not.
\<close>

fun guardedBody :: "rtype \<Rightarrow> bool" where
  "guardedBody (Rec name recType) = guardedBody recType"
| "guardedBody (TypeVar name) = False"
| "guardedBody type = True"

fun contractive :: "rtype \<Rightarrow> bool" where
  "contractive (Func params retType) =
     ((\<forall>p \<in> set params. contractive (snd p)) \<and> contractive retType)"
| "contractive (Object props) = (\<forall>p \<in> set props. contractive (snd p))"
| "contractive (Rec name recType) = (guardedBody recType \<and> contractive recType)"
| "contractive type = True"

definition wellFormed :: "rtype \<Rightarrow> bool" where
  "wellFormed type \<longleftrightarrow> freeVars type = {} \<and> contractive type \<and> uniqueFields type"

section \<open>The types reachable from a type\<close>

text \<open>
  Auxiliary notions for the termination argument. \<open>msubst env t\<close> replaces the free
  type variables of \<open>t\<close> by their types in \<open>env\<close>, all at once.
\<close>

fun msubst :: "(string \<rightharpoonup> rtype) \<Rightarrow> rtype \<Rightarrow> rtype" where
  "msubst env Boolean = Boolean"
| "msubst env Number = Number"
| "msubst env (Func params retType) =
     Func (map (\<lambda>p. (fst p, msubst env (snd p))) params) (msubst env retType)"
| "msubst env (Object props) = Object (map (\<lambda>p. (fst p, msubst env (snd p))) props)"
| "msubst env (Rec name recType) = Rec name (msubst (env(name := None)) recType)"
| "msubst env (TypeVar name) = (case env name of None \<Rightarrow> TypeVar name | Some t \<Rightarrow> t)"

text \<open>
  The closures of the subterms of a type: each subterm with every enclosing \<open>Rec\<close>
  binder replaced by the closure of that \<open>Rec\<close>. They are the types that unfolding and
  taking components can reach, and there are finitely many of them.
\<close>

fun closures :: "(string \<rightharpoonup> rtype) \<Rightarrow> rtype \<Rightarrow> rtype set" where
  "closures env (Func params retType) =
     insert (msubst env (Func params retType))
       ((\<Union>p \<in> set params. closures env (snd p)) \<union> closures env retType)"
| "closures env (Object props) =
     insert (msubst env (Object props)) (\<Union>p \<in> set props. closures env (snd p))"
| "closures env (Rec name recType) =
     insert (msubst env (Rec name recType))
       (closures (env(name \<mapsto> msubst env (Rec name recType))) recType)"
| "closures env Boolean = {msubst env Boolean}"
| "closures env Number = {msubst env Number}"
| "closures env (TypeVar name) = {msubst env (TypeVar name)}"

text \<open>
  A set of types is closed at \<open>u\<close> when it holds the components of \<open>u\<close> and the
  unfolding of \<open>u\<close>.
\<close>

fun stepClosed :: "rtype set \<Rightarrow> rtype \<Rightarrow> bool" where
  "stepClosed S (Func params retType) = (retType \<in> S \<and> (\<forall>p \<in> set params. snd p \<in> S))"
| "stepClosed S (Object props) = (\<forall>p \<in> set props. snd p \<in> S)"
| "stepClosed S (Rec name recType) = (expandType recType name (Rec name recType) \<in> S)"
| "stepClosed S type = True"

text \<open>An environment of closed types.\<close>

definition closedEnv :: "(string \<rightharpoonup> rtype) \<Rightarrow> bool" where
  "closedEnv env \<longleftrightarrow> (\<forall>t \<in> ran env. freeVars t = {})"

text \<open>The number of \<open>Rec\<close> binders at the head of a type.\<close>

fun leadRecs :: "rtype \<Rightarrow> nat" where
  "leadRecs (Rec name recType) = Suc (leadRecs recType)"
| "leadRecs type = 0"

text \<open>The well-formed types reachable from \<open>a\<close> or from \<open>b\<close>.\<close>

definition universe :: "rtype \<Rightarrow> rtype \<Rightarrow> rtype set" where
  "universe a b = (closures Map.empty a \<union> closures Map.empty b) \<inter> {v. wellFormed v}"


section \<open>The equi-recursive equality as the specification states it\<close>

text \<open>One unfolding of a \<open>Rec\<close>: its bound name replaced by the whole node in its body.\<close>

fun unfoldRec :: "rtype \<Rightarrow> rtype" where
  "unfoldRec (Rec boundName body) = expandType body boundName (Rec boundName body)"
| "unfoldRec type = type"

text \<open>
  The algorithm as section 4.3, Operation B, of the specification words it, to be compared
  with \<open>typeEqSub\<close>: return \<open>true\<close> if the pair was seen; otherwise unfold a
  \<open>Recursive\<close> operand once and retry with the pair appended to the seen pairs; once
  neither operand is \<open>Recursive\<close>, apply the structural rules with the current seen
  pairs, a type variable or a \<open>Recursive\<close> being unreachable there.
\<close>

partial_function (option) typeEquivalentRec ::
  "rtype \<Rightarrow> rtype \<Rightarrow> (rtype \<times> rtype) list \<Rightarrow> (error + bool) option" where
  "typeEquivalentRec a b seenPairs =
     (case hasSeen a b seenPairs of
        Inl e \<Rightarrow> Some (Inl e)
      | Inr found \<Rightarrow>
          if found then Some (Inr True)
          else if isRec a then typeEquivalentRec (unfoldRec a) b (seenPairs @ [(a, b)])
          else if isRec b then typeEquivalentRec a (unfoldRec b) (seenPairs @ [(a, b)])
          else
         (case b of
            Boolean \<Rightarrow> Some (Inr (a = Boolean))
          | Number \<Rightarrow> Some (Inr (a = Number))
          | Func paramsB retB \<Rightarrow>
              (case a of
                 Func paramsA retA \<Rightarrow>
                   if length paramsA \<noteq> length paramsB then Some (Inr False)
                   else Option.bind
                          (forEveryO (\<lambda>pp. typeEquivalentRec (snd (fst pp)) (snd (snd pp)) seenPairs)
                             (zip paramsA paramsB))
                          (\<lambda>r. case r of
                                 Inl e \<Rightarrow> Some (Inl e)
                               | Inr ok \<Rightarrow>
                                   if \<not> ok then Some (Inr False)
                                   else typeEquivalentRec retA retB seenPairs)
               | _ \<Rightarrow> Some (Inr False))
          | Object fieldsB \<Rightarrow>
              (case a of
                 Object fieldsA \<Rightarrow>
                   if length fieldsA \<noteq> length fieldsB then Some (Inr False)
                   else forEveryO (\<lambda>fieldB.
                          case find (\<lambda>fieldA. fst fieldA = fst fieldB) fieldsA of
                            None \<Rightarrow> Some (Inr False)
                          | Some fieldA \<Rightarrow> typeEquivalentRec (snd fieldA) (snd fieldB) seenPairs)
                        fieldsB
               | _ \<Rightarrow> Some (Inr False))
          | TypeVar name \<Rightarrow> Some (Inl Unreachable)
          | Rec boundName body \<Rightarrow> Some (Inl InvalidTermType)))"

text \<open>
  The body that \<open>typeEqSub\<close> and \<open>typeEquivalentRec\<close> share, with the unfolding and
  the recursive call as parameters; a device for comparing the two.
\<close>

definition eqBody ::
  "(rtype \<Rightarrow> rtype option) \<Rightarrow>
   (rtype \<Rightarrow> rtype \<Rightarrow> (rtype \<times> rtype) list \<Rightarrow> (error + bool) option) \<Rightarrow>
   rtype \<Rightarrow> rtype \<Rightarrow> (rtype \<times> rtype) list \<Rightarrow> (error + bool) option" where
  "eqBody unfold self a b seen =
     (case hasSeen a b seen of
        Inl e \<Rightarrow> Some (Inl e)
      | Inr found \<Rightarrow>
          if found then Some (Inr True)
          else if isRec a then Option.bind (unfold a) (\<lambda>t. self t b (seen @ [(a, b)]))
          else if isRec b then Option.bind (unfold b) (\<lambda>t. self a t (seen @ [(a, b)]))
          else
         (case b of
            Boolean \<Rightarrow> Some (Inr (a = Boolean))
          | Number \<Rightarrow> Some (Inr (a = Number))
          | Func paramsB retB \<Rightarrow>
              (case a of
                 Func paramsA retA \<Rightarrow>
                   if length paramsA \<noteq> length paramsB then Some (Inr False)
                   else Option.bind
                          (forEveryO (\<lambda>pp. self (snd (fst pp)) (snd (snd pp)) seen)
                             (zip paramsA paramsB))
                          (\<lambda>r. case r of
                                 Inl e \<Rightarrow> Some (Inl e)
                               | Inr ok \<Rightarrow>
                                   if \<not> ok then Some (Inr False)
                                   else self retA retB seen)
               | _ \<Rightarrow> Some (Inr False))
          | Object fieldsB \<Rightarrow>
              (case a of
                 Object fieldsA \<Rightarrow>
                   if length fieldsA \<noteq> length fieldsB then Some (Inr False)
                   else forEveryO (\<lambda>fieldB.
                          case find (\<lambda>fieldA. fst fieldA = fst fieldB) fieldsA of
                            None \<Rightarrow> Some (Inr False)
                          | Some fieldA \<Rightarrow> self (snd fieldA) (snd fieldB) seen)
                        fieldsB
               | _ \<Rightarrow> Some (Inr False))
          | TypeVar name \<Rightarrow> Some (Inl Unreachable)
          | Rec boundName body \<Rightarrow> Some (Inl InvalidTermType)))"

text \<open>
  Types in which the body of every \<open>Rec\<close> is a primitive, a function or a record, so
  that one unfolding of a \<open>Rec\<close> is not a \<open>Rec\<close> again.
\<close>

fun plainBody :: "rtype \<Rightarrow> bool" where
  "plainBody (Rec name recType) = False"
| "plainBody (TypeVar name) = False"
| "plainBody type = True"

fun plainRecs :: "rtype \<Rightarrow> bool" where
  "plainRecs (Func params retType) =
     ((\<forall>p \<in> set params. plainRecs (snd p)) \<and> plainRecs retType)"
| "plainRecs (Object props) = (\<forall>p \<in> set props. plainRecs (snd p))"
| "plainRecs (Rec name recType) = (plainBody recType \<and> plainRecs recType)"
| "plainRecs type = True"

section \<open>Properties of substitution\<close>

lemma expandType_no_free: "v \<notin> freeVars t \<Longrightarrow> expandType t v r = t"
  by (induction t v r rule: expandType.induct) (auto simp: map_idI)

lemma freeVars_expandType_closed:
  "freeVars r = {} \<Longrightarrow> freeVars (expandType t v r) = freeVars t - {v}"
  by (induction t v r rule: expandType.induct) auto

lemma freeVars_expandType_subset:
  "freeVars (expandType t v r) \<subseteq> (freeVars t - {v}) \<union> freeVars r"
  by (induction t v r rule: expandType.induct) auto

section \<open>Properties of the naive equality\<close>

lemma forEvery_True_iff: "forEvery f xs = Inr True \<longleftrightarrow> (\<forall>x \<in> set xs. f x = Inr True)"
  by (induction xs) (auto split: sum.splits)

lemma find_unique:
  "distinct (map fst ps) \<Longrightarrow> p \<in> set ps \<Longrightarrow> find (\<lambda>q. fst q = fst p) ps = Some p"
  by (induction ps) (auto simp: rev_image_eqI)

lemma zip_map_same: "zip ps (map g ps) = map (\<lambda>p. (p, g p)) ps"
  by (induction ps) auto

lemma expandType_self: "expandType t v (TypeVar v) = t"
  by (induction t v "TypeVar v" rule: expandType.induct) (auto simp: map_idI)

lemma typeEqNaive_rename:
  assumes "uniqueFields b"
    and "\<And>v. v \<in> freeVars b \<Longrightarrow> m v = Some (if v = x then y else v)"
  shows "typeEqNaive b (expandType b x (TypeVar y)) m = Inr True"
  using assms
proof (induction b arbitrary: m x y)
  case (Func params retType)
  have ps: "typeEqNaive (snd p) (expandType (snd p) x (TypeVar y)) m = Inr True"
    if p: "p \<in> set params" for p
  proof (rule Func.IH(1) [of p "snd p"])
    show "p \<in> set params" by (rule p)
    show "snd p \<in> Basic_BNFs.snds p" by (cases p) (simp add: snds.simps)
    show "uniqueFields (snd p)" using Func.prems(1) p by simp
    show "m v = Some (if v = x then y else v)" if "v \<in> freeVars (snd p)" for v
    proof (rule Func.prems(2))
      show "v \<in> freeVars (Func params retType)" using p that by auto
    qed
  qed
  have ret: "typeEqNaive retType (expandType retType x (TypeVar y)) m = Inr True"
  proof (rule Func.IH(2))
    show "uniqueFields retType" using Func.prems(1) by simp
    show "m v = Some (if v = x then y else v)" if "v \<in> freeVars retType" for v
    proof (rule Func.prems(2))
      show "v \<in> freeVars (Func params retType)" using that by auto
    qed
  qed
  have "forEvery (\<lambda>pp. typeEqNaive (snd (fst pp)) (snd (snd pp)) m)
          (zip params (map (\<lambda>p. (fst p, expandType (snd p) x (TypeVar y))) params)) = Inr True"
    using ps by (simp add: forEvery_True_iff zip_map_same)
  then show ?case using ret by simp
next
  case (Object props)
  have eq: "typeEqNaive (snd p) (expandType (snd p) x (TypeVar y)) m = Inr True"
    if p: "p \<in> set props" for p
  proof (rule Object.IH [of p "snd p"])
    show "p \<in> set props" by (rule p)
    show "snd p \<in> Basic_BNFs.snds p" by (cases p) (simp add: snds.simps)
    show "uniqueFields (snd p)" using Object.prems(1) p by simp
    show "m v = Some (if v = x then y else v)" if "v \<in> freeVars (snd p)" for v
    proof (rule Object.prems(2))
      show "v \<in> freeVars (Object props)" using p that by auto
    qed
  qed
  have "find (\<lambda>prop. fst prop = fst p) props = Some p" if "p \<in> set props" for p
    using Object.prems that by (simp add: find_unique)
  then show ?case using eq by (simp add: forEvery_True_iff)
next
  case (Rec name recType)
  show ?case
  proof (cases "name = x")
    case True
    have "typeEqNaive recType (expandType recType name (TypeVar name)) (m(name \<mapsto> name)) = Inr True"
    proof (rule Rec.IH)
      show "uniqueFields recType" using Rec.prems(1) by simp
      show "(m(name \<mapsto> name)) v = Some (if v = name then name else v)"
        if "v \<in> freeVars recType" for v
      proof (cases "v = name")
        case False
        then have "v \<in> freeVars (Rec name recType)" using that by simp
        from Rec.prems(2) [OF this] show ?thesis using False True by simp
      qed simp
    qed
    then show ?thesis using True by (simp add: expandType_self)
  next
    case False
    have "typeEqNaive recType (expandType recType x (TypeVar y)) (m(name \<mapsto> name)) = Inr True"
    proof (rule Rec.IH)
      show "uniqueFields recType" using Rec.prems(1) by simp
      show "(m(name \<mapsto> name)) v = Some (if v = x then y else v)"
        if "v \<in> freeVars recType" for v
      proof (cases "v = name")
        case neq: False
        then have "v \<in> freeVars (Rec name recType)" using that by simp
        from Rec.prems(2) [OF this] show ?thesis using neq by simp
      qed (use False in simp)
    qed
    then show ?thesis using False by simp
  qed
qed auto

lemma typeEqNaive_refl:
  "uniqueFields b \<Longrightarrow> \<forall>v \<in> freeVars b. m v = Some v \<Longrightarrow> typeEqNaive b b m = Inr True"
  using typeEqNaive_rename [of b m "''''" "''''"] by (simp add: expandType_self)

lemma find_name_Some_iff:
  "distinct (map fst ps) \<Longrightarrow>
   find (\<lambda>q. fst q = n) ps = Some p \<longleftrightarrow> p \<in> set ps \<and> fst p = n"
  by (induction ps) (auto simp: rev_image_eqI)

lemma record_field_test:
  assumes "distinct (map fst props1)"
  shows "(case find (\<lambda>prop. fst prop = fst prop2) props1 of
            None \<Rightarrow> Inr False
          | Some prop1 \<Rightarrow> typeEqNaive (snd prop1) (snd prop2) m) = Inr True \<longleftrightarrow>
         (\<exists>prop1 \<in> set props1. fst prop1 = fst prop2 \<and>
            typeEqNaive (snd prop1) (snd prop2) m = Inr True)"
proof (cases "find (\<lambda>prop. fst prop = fst prop2) props1")
  case None
  then have "\<not> (\<exists>prop1 \<in> set props1. fst prop1 = fst prop2)"
    by (auto simp: find_None_iff)
  then show ?thesis using None by simp
next
  case (Some prop1)
  then have "prop1 \<in> set props1 \<and> fst prop1 = fst prop2"
    using assms by (simp add: find_name_Some_iff)
  moreover have "q = prop1" if "q \<in> set props1" "fst q = fst prop2" for q
  proof -
    have "find (\<lambda>prop. fst prop = fst prop2) props1 = Some q"
      using that assms by (simp add: find_name_Some_iff)
    then show ?thesis using Some by simp
  qed
  ultimately show ?thesis using Some by auto
qed

lemma record_equality_iff:
  assumes "distinct (map fst props1)"
  shows "typeEqNaive (Object props1) (Object props2) m = Inr True \<longleftrightarrow>
     length props1 = length props2 \<and>
     (\<forall>prop2 \<in> set props2. \<exists>prop1 \<in> set props1.
        fst prop1 = fst prop2 \<and> typeEqNaive (snd prop1) (snd prop2) m = Inr True)"
  using record_field_test [OF assms] by (simp add: forEvery_True_iff)

text \<open>
  Claim C8 as stated fails for records with a repeated field name. \<open>find\<close> takes the
  first field of a name: \<open>{a: number, a: boolean}\<close> against \<open>{a: boolean, a: boolean}\<close>
  has equal counts and a same-named equal field for every field of the right record,
  yet the answer is \<open>false\<close>; and \<open>{a: number, b: number}\<close> is found equal to
  \<open>{a: number, a: number}\<close> although its field \<open>b\<close> is not in the other record.
\<close>

theorem record_equality_duplicate_fields:
  "\<not> ((typeEqNaive (Object [(''a'', Number), (''a'', Boolean)])
          (Object [(''a'', Boolean), (''a'', Boolean)]) Map.empty = Inr True) =
       (length [(''a'', Number), (''a'', Boolean)] = length [(''a'', Boolean), (''a'', Boolean)] \<and>
        (\<forall>prop2 \<in> set [(''a'', Boolean), (''a'', Boolean)].
           \<exists>prop1 \<in> set [(''a'', Number), (''a'', Boolean)].
             fst prop1 = fst prop2 \<and>
             typeEqNaive (snd prop1) (snd prop2) Map.empty = Inr True))) \<and>
   typeEqNaive (Object [(''a'', Number), (''a'', Boolean)])
     (Object [(''a'', Boolean), (''a'', Boolean)]) Map.empty = Inr False \<and>
   typeEqNaive (Object [(''a'', Number), (''b'', Number)])
     (Object [(''a'', Number), (''a'', Number)]) Map.empty = Inr True"
  by simp

lemma distinct_names_card: "distinct (map fst ps) \<Longrightarrow> card (fst ` set ps) = length ps"
  using distinct_card [of "map fst ps"] by simp

text \<open>
  Claim C8, amended. For record types whose field names are unique, on both sides,
  \<open>typeEqNaive\<close> returns \<open>true\<close> exactly when the field counts agree and every field of
  the right record has a same-named field in the left record with an equal type; equal
  records have the same set of field names, so a record with a field that the other lacks
  is never equal to it; records of different field counts are never equal; and the
  answer does not depend on the order of the fields.
\<close>

theorem record_equality:
  "distinct (map fst props1) \<and> distinct (map fst props2) \<longrightarrow>
     ((typeEqNaive (Object props1) (Object props2) m = Inr True) =
      (length props1 = length props2 \<and>
       (\<forall>prop2 \<in> set props2. \<exists>prop1 \<in> set props1.
          fst prop1 = fst prop2 \<and> typeEqNaive (snd prop1) (snd prop2) m = Inr True))) \<and>
     (typeEqNaive (Object props1) (Object props2) m = Inr True \<longrightarrow>
        fst ` set props1 = fst ` set props2) \<and>
     (length props1 \<noteq> length props2 \<longrightarrow>
        typeEqNaive (Object props1) (Object props2) m = Inr False) \<and>
     (mset props1' = mset props1 \<and> mset props2' = mset props2 \<longrightarrow>
        (typeEqNaive (Object props1') (Object props2') m = Inr True) =
        (typeEqNaive (Object props1) (Object props2) m = Inr True))"
proof (intro impI conjI)
  assume dd: "distinct (map fst props1) \<and> distinct (map fst props2)"
  then have d: "distinct (map fst props1)" and d2: "distinct (map fst props2)" by simp_all
  show iff: "(typeEqNaive (Object props1) (Object props2) m = Inr True) =
      (length props1 = length props2 \<and>
       (\<forall>prop2 \<in> set props2. \<exists>prop1 \<in> set props1.
          fst prop1 = fst prop2 \<and> typeEqNaive (snd prop1) (snd prop2) m = Inr True))"
    by (rule record_equality_iff [OF d])
  show "fst ` set props1 = fst ` set props2"
    if eq: "typeEqNaive (Object props1) (Object props2) m = Inr True"
  proof -
    have len: "length props1 = length props2"
      and ex: "\<forall>prop2 \<in> set props2. \<exists>prop1 \<in> set props1. fst prop1 = fst prop2"
      using eq iff by auto
    have sub: "fst ` set props2 \<subseteq> fst ` set props1"
    proof
      fix n assume "n \<in> fst ` set props2"
      then obtain prop2 where "prop2 \<in> set props2" "n = fst prop2" by auto
      then obtain prop1 where "prop1 \<in> set props1" "fst prop1 = n" using ex by metis
      then show "n \<in> fst ` set props1" by force
    qed
    have "card (fst ` set props2) = card (fst ` set props1)"
      using len distinct_names_card [OF d] distinct_names_card [OF d2] by simp
    then have "fst ` set props2 = fst ` set props1"
      using sub by (intro card_subset_eq) auto
    then show ?thesis by simp
  qed
  show "typeEqNaive (Object props1) (Object props2) m = Inr False"
    if "length props1 \<noteq> length props2"
    using that by simp
  show "(typeEqNaive (Object props1') (Object props2') m = Inr True) =
        (typeEqNaive (Object props1) (Object props2) m = Inr True)"
    if "mset props1' = mset props1 \<and> mset props2' = mset props2"
  proof -
    have "mset (map fst props1') = mset (map fst props1)"
      using that by simp
    then have d': "distinct (map fst props1')"
      using d by (metis mset_eq_imp_distinct_iff)
    have "set props1' = set props1" "set props2' = set props2"
      "length props1' = length props1" "length props2' = length props2"
      using that by (auto dest: mset_eq_setD mset_eq_length)
    then show ?thesis
      unfolding record_equality_iff [OF d] record_equality_iff [OF d'] by simp
  qed
qed

theorem record_equality_witness:
  "distinct (map fst [(''a'', Number), (''b'', Boolean)]) \<and>
   distinct (map fst [(''b'', Boolean), (''a'', Number)]) \<and>
   typeEqNaive (Object [(''a'', Number), (''b'', Boolean)])
     (Object [(''b'', Boolean), (''a'', Number)]) Map.empty = Inr True \<and>
   fst ` set [(''a'', Number), (''b'', Boolean)] = fst ` set [(''b'', Boolean), (''a'', Number)] \<and>
   typeEqNaive (Object [(''a'', Number), (''b'', Boolean)])
     (Object [(''a'', Number)]) Map.empty = Inr False \<and>
   typeEqNaive (Object [(''b'', Boolean), (''a'', Number)])
     (Object [(''a'', Number), (''b'', Boolean)]) Map.empty = Inr True"
  using record_equality [where ?props1.0 = "[(''a'', Number), (''b'', Boolean)]"
      and ?props2.0 = "[(''b'', Boolean), (''a'', Number)]" and m = Map.empty
      and props1' = "[(''b'', Boolean), (''a'', Number)]"
      and props2' = "[(''a'', Number), (''b'', Boolean)]"]
    record_equality [where ?props1.0 = "[(''a'', Number), (''b'', Boolean)]"
      and ?props2.0 = "[(''a'', Number)]" and m = Map.empty
      and props1' = "[(''a'', Number), (''b'', Boolean)]"
      and props2' = "[(''a'', Number)]"]
  by auto

text \<open>
  Claim C10 as stated fails for a body with another free type variable and for a body
  with a repeated field name: \<open>Rec X. () => Z\<close> against its respelling \<open>Rec Y. () => Z\<close>
  under the empty binding map throws, and \<open>Rec X. {a: number, a: X}\<close> against its
  respelling is not equal.
\<close>

theorem typeEqNaive_Rec_open_or_duplicate:
  "expandType (Func [] (TypeVar ''Z'')) ''X'' (TypeVar ''Y'') = Func [] (TypeVar ''Z'') \<and>
   typeEqNaive (Rec ''X'' (Func [] (TypeVar ''Z''))) (Rec ''Y'' (Func [] (TypeVar ''Z''))) Map.empty =
     Inl (UnknownTypeVariable ''Z'') \<and>
   expandType (Object [(''a'', Number), (''a'', TypeVar ''X'')]) ''X'' (TypeVar ''Y'') =
     Object [(''a'', Number), (''a'', TypeVar ''Y'')] \<and>
   typeEqNaive (Rec ''X'' (Object [(''a'', Number), (''a'', TypeVar ''X'')]))
     (Rec ''Y'' (Object [(''a'', Number), (''a'', TypeVar ''Y'')])) Map.empty = Inr False"
  by simp

text \<open>
  Claim C10, amended. \<open>typeEqNaive\<close> relates two \<open>Rec\<close> types by comparing their bodies
  under the binding map extended with the left bound name mapped to the right one; so a
  \<open>Rec\<close> type with unique field names is equal to its copy with the bound name
  respelled under every binding map that maps the other free type variables of the body
  to themselves, and a closed one under every binding map.
\<close>

theorem typeEqNaive_Rec:
  "typeEqNaive (Rec x b1) (Rec y b2) m = typeEqNaive b1 b2 (m(x \<mapsto> y)) \<and>
   (uniqueFields b1 \<and> (\<forall>v \<in> freeVars b1 - {x}. m v = Some v) \<longrightarrow>
      typeEqNaive (Rec x b1) (Rec y (expandType b1 x (TypeVar y))) m = Inr True) \<and>
   (uniqueFields b1 \<and> freeVars (Rec x b1) = {} \<longrightarrow>
      (\<forall>m'. typeEqNaive (Rec x b1) (Rec y (expandType b1 x (TypeVar y))) m' = Inr True))"
proof (intro conjI impI allI)
  show "typeEqNaive (Rec x b1) (Rec y b2) m = typeEqNaive b1 b2 (m(x \<mapsto> y))"
    by simp
  show "typeEqNaive (Rec x b1) (Rec y (expandType b1 x (TypeVar y))) m = Inr True"
    if wf: "uniqueFields b1 \<and> (\<forall>v \<in> freeVars b1 - {x}. m v = Some v)"
  proof -
    have "typeEqNaive b1 (expandType b1 x (TypeVar y)) (m(x \<mapsto> y)) = Inr True"
    proof (rule typeEqNaive_rename)
      show "uniqueFields b1" using wf by simp
      show "(m(x \<mapsto> y)) v = Some (if v = x then y else v)" if "v \<in> freeVars b1" for v
        using wf that by auto
    qed
    then show ?thesis by simp
  qed
  show "typeEqNaive (Rec x b1) (Rec y (expandType b1 x (TypeVar y))) m' = Inr True"
    if wf: "uniqueFields b1 \<and> freeVars (Rec x b1) = {}" for m'
  proof -
    have "typeEqNaive b1 (expandType b1 x (TypeVar y)) (m'(x \<mapsto> y)) = Inr True"
    proof (rule typeEqNaive_rename)
      show "uniqueFields b1" using wf by simp
      show "(m'(x \<mapsto> y)) v = Some (if v = x then y else v)" if "v \<in> freeVars b1" for v
        using wf that by auto
    qed
    then show ?thesis by simp
  qed
qed

theorem typeEqNaive_Rec_witness:
  "uniqueFields (Object [(''num'', Number), (''rest'', Func [] (TypeVar ''X''))]) \<and>
   freeVars (Rec ''X'' (Object [(''num'', Number), (''rest'', Func [] (TypeVar ''X''))])) = {} \<and>
   typeEqNaive (Rec ''X'' (Object [(''num'', Number), (''rest'', Func [] (TypeVar ''X''))]))
     (Rec ''Y'' (Object [(''num'', Number), (''rest'', Func [] (TypeVar ''Y''))])) Map.empty
     = Inr True \<and>
   typeEqNaive (Rec ''X'' (Func [(''z'', TypeVar ''Z'')] (TypeVar ''X'')))
     (Rec ''Y'' (Func [(''z'', TypeVar ''Z'')] (TypeVar ''Y''))) [''Z'' \<mapsto> ''Z''] = Inr True"
  using typeEqNaive_Rec [where x = "''X''" and y = "''Y''" and m = Map.empty
      and ?b1.0 = "Object [(''num'', Number), (''rest'', Func [] (TypeVar ''X''))]"]
    typeEqNaive_Rec [where x = "''X''" and y = "''Y''" and m = "[''Z'' \<mapsto> ''Z'']"
      and ?b1.0 = "Func [(''z'', TypeVar ''Z'')] (TypeVar ''X'')"]
  by simp

section \<open>Properties of the poly.ts operations\<close>

text \<open>
  The example of poly.test.ts for \<open>substitute\<close>, where no binder is involved.
\<close>

lemma substitute_test_example:
  "substitute (PFunc [(''x'', PTypeVar ''T'')] (PTypeVar ''T'')) ''T'' PNumber =
     PFunc [(''x'', PNumber)] PNumber"
  by simp

text \<open>
  Claim C7, evaluated at the input where it fails. In
  \<open>typeAbs(["T"], fn([param("x", typeVar("T"))], boolean()))\<close> the name \<open>T\<close> does not
  occur free, so a substitution for \<open>T\<close> that replaces free occurrences only returns
  the type unchanged; \<open>substitute\<close> of poly.ts replaces the bound occurrence.
  \<open>expandType\<close> of rec.ts returns the corresponding \<open>Rec\<close> unchanged.
\<close>

theorem substitute_enters_binder:
  "freeTypeVars (PTypeAbs [''T''] (PFunc [(''x'', PTypeVar ''T'')] PBoolean)) = {} \<and>
   substitute (PTypeAbs [''T''] (PFunc [(''x'', PTypeVar ''T'')] PBoolean)) ''T'' PNumber =
     PTypeAbs [''T''] (PFunc [(''x'', PNumber)] PBoolean) \<and>
   substitute (PTypeAbs [''T''] (PFunc [(''x'', PTypeVar ''T'')] PBoolean)) ''T'' PNumber \<noteq>
     PTypeAbs [''T''] (PFunc [(''x'', PTypeVar ''T'')] PBoolean) \<and>
   expandType (Rec ''T'' (Func [(''x'', TypeVar ''T'')] Boolean)) ''T'' Number =
     Rec ''T'' (Func [(''x'', TypeVar ''T'')] Boolean)"
  by simp

text \<open>
  Claim C6, evaluated at the input where it fails. \<open>typeEqRec\<close> of poly.ts answers
  \<open>true\<close> for two type variables although the binding map sends the left name
  \<open>A\<close> to \<open>A\<close>, not to the right name \<open>B\<close>; \<open>typeEqNaive\<close> of rec.ts compares the
  entry with the right name and answers \<open>false\<close>.
\<close>

theorem typeEqRec_ignores_binding:
  "typeEqRec (PTypeVar ''A'') (PTypeVar ''B'') [''A'' \<mapsto> ''A'', ''B'' \<mapsto> ''B''] = Inr True \<and>
   typeEqNaive (TypeVar ''A'') (TypeVar ''B'') [''A'' \<mapsto> ''A'', ''B'' \<mapsto> ''B''] = Inr False"
  by simp

text \<open>
  Claim C5, evaluated at the inputs of the shadowing and variable-capture tests of
  poly.test.ts. Instantiating the outer \<open>T\<close> with \<open>number\<close> also replaces the
  occurrence of \<open>T\<close> bound by the inner type abstraction, where the test expects the
  inner abstraction untouched; and instantiating the outer \<open>T\<close> with the type variable
  \<open>U\<close> leaves the inner binder spelled \<open>U\<close>, so that it captures the substituted
  \<open>U\<close>, where the test expects the inner binder renamed to \<open>U@1\<close>.
\<close>

theorem substitute_replaces_shadowed:
  "substitute
     (PFunc [(''arg1'', PTypeVar ''T''),
             (''arg2'', PTypeAbs [''T''] (PFunc [(''x'', PTypeVar ''T'')] PBoolean))] PBoolean)
     ''T'' PNumber =
   PFunc [(''arg1'', PNumber),
          (''arg2'', PTypeAbs [''T''] (PFunc [(''x'', PNumber)] PBoolean))] PBoolean \<and>
   substitute
     (PFunc [(''arg1'', PTypeVar ''T''),
             (''arg2'', PTypeAbs [''T''] (PFunc [(''x'', PTypeVar ''T'')] PBoolean))] PBoolean)
     ''T'' PNumber \<noteq>
   PFunc [(''arg1'', PNumber),
          (''arg2'', PTypeAbs [''T''] (PFunc [(''x'', PTypeVar ''T'')] PBoolean))] PBoolean \<and>
   substitute
     (PFunc [(''arg1'', PTypeVar ''T''),
             (''arg2'', PTypeAbs [''U'']
                (PFunc [(''x'', PTypeVar ''T''), (''y'', PTypeVar ''U'')] PBoolean))] PBoolean)
     ''T'' (PTypeVar ''U'') =
   PFunc [(''arg1'', PTypeVar ''U''),
          (''arg2'', PTypeAbs [''U'']
             (PFunc [(''x'', PTypeVar ''U''), (''y'', PTypeVar ''U'')] PBoolean))] PBoolean"
  by simp

section \<open>Properties of subtyping\<close>

lemma all_zip_nth:
  "length xs = length ys \<Longrightarrow>
   (\<forall>pp \<in> set (zip xs ys). P (fst pp) (snd pp)) \<longleftrightarrow> (\<forall>i < length ys. P (xs ! i) (ys ! i))"
  by (auto simp: set_zip)

text \<open>
  Claim C3. Record subtyping is width subtyping: a record is a subtype of another iff
  every field of the supertype has a same-named field in the subtype whose type is a
  subtype. \<open>{foo: number, bar: number}\<close> is a subtype of \<open>{foo: number}\<close>, and not the
  other way round.
\<close>

theorem record_width_subtyping:
  "(subtype (SubObject subFields) (SubObject supFields) \<longleftrightarrow>
      (\<forall>f2 \<in> set supFields. \<exists>f1 \<in> set subFields.
         fst f1 = fst f2 \<and> subtype (snd f1) (snd f2))) \<and>
   subtype (SubObject [(''foo'', SubNumber), (''bar'', SubNumber)])
           (SubObject [(''foo'', SubNumber)]) \<and>
   \<not> subtype (SubObject [(''foo'', SubNumber)])
             (SubObject [(''foo'', SubNumber), (''bar'', SubNumber)])"
  by auto

theorem record_width_subtyping_witness:
  "subtype (SubObject [(''foo'', SubNumber), (''bar'', SubBoolean)])
           (SubObject [(''foo'', SubNumber)]) \<and>
   \<not> subtype (SubObject [(''foo'', SubNumber)])
             (SubObject [(''foo'', SubNumber), (''bar'', SubBoolean)])"
  using record_width_subtyping [where subFields = "[(''foo'', SubNumber), (''bar'', SubBoolean)]"
      and supFields = "[(''foo'', SubNumber)]"]
    record_width_subtyping [where subFields = "[(''foo'', SubNumber)]"
      and supFields = "[(''foo'', SubNumber), (''bar'', SubBoolean)]"]
  by simp

text \<open>
  Claim C4 as stated fails in its example: by the rule it states, the function whose
  parameter is \<open>{foo: number, bar: boolean}\<close> is not a subtype of the one whose
  parameter is \<open>{foo: number}\<close>; the reverse holds.
\<close>

theorem function_variance_example_reversed:
  "\<not> subtype
     (SubFunc [(''x'', SubObject [(''foo'', SubNumber), (''bar'', SubBoolean)])] SubNumber)
     (SubFunc [(''x'', SubObject [(''foo'', SubNumber)])] SubNumber) \<and>
   subtype
     (SubFunc [(''x'', SubObject [(''foo'', SubNumber)])] SubNumber)
     (SubFunc [(''x'', SubObject [(''foo'', SubNumber), (''bar'', SubBoolean)])] SubNumber)"
  by simp

text \<open>
  Claim C4, amended. Function subtyping is contravariant in the parameters and
  covariant in the return type: equal parameter counts, the return types in the same
  direction, the parameter types position by position in the reverse direction. The
  function whose parameter is \<open>{foo: number}\<close> is a subtype of the one whose parameter
  is \<open>{foo: number, bar: boolean}\<close>, and not the other way round.
\<close>

theorem function_variance:
  "(subtype (SubFunc subParams subRet) (SubFunc supParams supRet) \<longleftrightarrow>
      length subParams = length supParams \<and> subtype subRet supRet \<and>
      (\<forall>i < length supParams. subtype (snd (supParams ! i)) (snd (subParams ! i)))) \<and>
   subtype
     (SubFunc [(''x'', SubObject [(''foo'', SubNumber)])] SubNumber)
     (SubFunc [(''x'', SubObject [(''foo'', SubNumber), (''bar'', SubBoolean)])] SubNumber) \<and>
   \<not> subtype
     (SubFunc [(''x'', SubObject [(''foo'', SubNumber), (''bar'', SubBoolean)])] SubNumber)
     (SubFunc [(''x'', SubObject [(''foo'', SubNumber)])] SubNumber)"
proof (intro conjI)
  show "subtype (SubFunc subParams subRet) (SubFunc supParams supRet) \<longleftrightarrow>
      length subParams = length supParams \<and> subtype subRet supRet \<and>
      (\<forall>i < length supParams. subtype (snd (supParams ! i)) (snd (subParams ! i)))"
    using all_zip_nth [of subParams supParams "\<lambda>p1 p2. subtype (snd p2) (snd p1)"]
    by auto
qed simp_all

theorem function_variance_witness:
  "length [(''x'', SubNumber)] = length [(''y'', SubNumber)] \<and>
   subtype (SubObject [(''a'', SubBoolean)]) (SubObject []) \<and>
   subtype (snd ([(''y'', SubNumber)] ! 0)) (snd ([(''x'', SubNumber)] ! 0)) \<and>
   subtype (SubFunc [(''x'', SubNumber)] (SubObject [(''a'', SubBoolean)]))
           (SubFunc [(''y'', SubNumber)] (SubObject []))"
  using function_variance [where subParams = "[(''x'', SubNumber)]"
      and supParams = "[(''y'', SubNumber)]" and subRet = "SubObject [(''a'', SubBoolean)]"
      and supRet = "SubObject []"]
  by simp


section \<open>Unfolding and the recursion equations of the equi-recursive equality\<close>

lemma unwrapRecType_Rec:
  "unwrapRecType (Rec n t) = unwrapRecType (expandType t n (Rec n t))"
  by (subst unwrapRecType.simps) simp

lemma unwrapRecType_nonRec: "\<not> isRec t \<Longrightarrow> unwrapRecType t = Some t"
  by (subst unwrapRecType.simps) (cases t; simp)

lemma unwrapRecType_loop: "unwrapRecType (Rec ''X'' (TypeVar ''X'')) = None"
proof (rule ccontr)
  assume "unwrapRecType (Rec ''X'' (TypeVar ''X'')) \<noteq> None"
  then obtain u where u: "unwrapRecType (Rec ''X'' (TypeVar ''X'')) = Some u" by auto
  have "t \<noteq> Rec ''X'' (TypeVar ''X'')" if "unwrapRecType t = Some v" for t v
    by (rule unwrapRecType.raw_induct
          [where P = "\<lambda>t v. t \<noteq> Rec ''X'' (TypeVar ''X'')", OF _ that])
       (fastforce split: rtype.splits)
  with u show False by blast
qed

lemma typeEqSub_seen:
  "hasSeen a b seen = Inr True \<Longrightarrow> typeEqSub a b seen = Some (Inr True)"
  by (subst typeEqSub.simps) simp

lemma typeEqSub_throw:
  "hasSeen a b seen = Inl e \<Longrightarrow> typeEqSub a b seen = Some (Inl e)"
  by (subst typeEqSub.simps) simp

lemma typeEqSub_unfold_left:
  "hasSeen a b seen = Inr False \<Longrightarrow> isRec a \<Longrightarrow>
   typeEqSub a b seen =
     Option.bind (unwrapRecType a) (\<lambda>t. typeEqSub t b (seen @ [(a, b)]))"
  by (subst typeEqSub.simps) simp

lemma typeEqSub_unfold_right:
  "hasSeen a b seen = Inr False \<Longrightarrow> \<not> isRec a \<Longrightarrow> isRec b \<Longrightarrow>
   typeEqSub a b seen =
     Option.bind (unwrapRecType b) (\<lambda>t. typeEqSub a t (seen @ [(a, b)]))"
  by (subst typeEqSub.simps) simp

section \<open>The reachable types are finitely many and closed under unfolding\<close>

lemma closedEnv_empty: "closedEnv Map.empty"
  by (simp add: closedEnv_def)

lemma closedEnv_remove: "closedEnv env \<Longrightarrow> closedEnv (env(n := None))"
  by (auto simp: closedEnv_def ran_def split: if_splits)

lemma closedEnv_update: "closedEnv env \<Longrightarrow> freeVars t = {} \<Longrightarrow> closedEnv (env(n \<mapsto> t))"
  by (auto simp: closedEnv_def ran_def split: if_splits)

lemma closedEnv_lookup: "closedEnv env \<Longrightarrow> env n = Some t \<Longrightarrow> freeVars t = {}"
  by (auto simp: closedEnv_def ran_def)





lemma finite_closures: "finite (closures env t)"
proof (induction env t rule: closures.induct)
  case (3 env name recType)
  have "finite (closures (env(name \<mapsto> msubst env (Rec name recType))) recType)"
    by (rule 3)
  then show "finite (closures env (Rec name recType))"
    by (simp del: msubst.simps)
qed auto

lemma msubst_in_closures: "msubst env t \<in> closures env t"
  by (cases t) auto

lemma msubst_empty: "msubst Map.empty t = t"
proof (induction t)
  case (Rec name recType)
  have "Map.empty(name := None) = (Map.empty :: string \<rightharpoonup> rtype)" by simp
  then show "msubst Map.empty (Rec name recType) = Rec name recType"
    using Rec by simp
qed (auto simp: map_idI snds.simps)

lemma freeVars_msubst:
  "closedEnv env \<Longrightarrow> freeVars (msubst env t) = freeVars t - dom env"
proof (induction env t rule: msubst.induct)
  case (5 env name recType)
  have "closedEnv (env(name := None))"
    using "5.prems" by (rule closedEnv_remove)
  then have "freeVars (msubst (env(name := None)) recType) =
      freeVars recType - dom (env(name := None))"
    by (rule "5.IH")
  then show "freeVars (msubst env (Rec name recType)) = freeVars (Rec name recType) - dom env"
    by auto
next
  case (6 env name)
  then show ?case by (auto split: option.splits dest: closedEnv_lookup)
qed auto

lemma expandType_msubst:
  "closedEnv env \<Longrightarrow>
   expandType (msubst (env(x := None)) t) x r = msubst (env(x \<mapsto> r)) t"
proof (induction t arbitrary: env)
  case (Rec name recType)
  show "expandType (msubst (env(x := None)) (Rec name recType)) x r =
        msubst (env(x \<mapsto> r)) (Rec name recType)"
  proof (cases "name = x")
    case True
    then show ?thesis by simp
  next
    case False
    have "closedEnv (env(name := None))"
      using Rec.prems by (rule closedEnv_remove)
    then have "expandType (msubst ((env(name := None))(x := None)) recType) x r =
          msubst ((env(name := None))(x \<mapsto> r)) recType"
      by (rule Rec.IH)
    moreover have "(env(name := None))(x := None) = (env(x := None))(name := None)"
      "(env(name := None))(x \<mapsto> r) = (env(x \<mapsto> r))(name := None)"
      using False by (auto simp: fun_upd_twist)
    ultimately show ?thesis using False by simp
  qed
next
  case (TypeVar name)
  have "closedEnv env" by (rule TypeVar)
  then show "expandType (msubst (env(x := None)) (TypeVar name)) x r =
        msubst (env(x \<mapsto> r)) (TypeVar name)"
    by (auto split: option.splits dest: closedEnv_lookup simp: expandType_no_free)
next
  case (Func params retType)
  have "expandType (msubst (env(x := None)) (snd p)) x r = msubst (env(x \<mapsto> r)) (snd p)"
    if "p \<in> set params" for p
    using that Func.prems by (intro Func.IH(1) [of p]) (auto simp: snds.simps)
  moreover have "expandType (msubst (env(x := None)) retType) x r = msubst (env(x \<mapsto> r)) retType"
    using Func.prems by (rule Func.IH(2))
  ultimately show "expandType (msubst (env(x := None)) (Func params retType)) x r =
        msubst (env(x \<mapsto> r)) (Func params retType)"
    by simp
next
  case (Object props)
  have "expandType (msubst (env(x := None)) (snd p)) x r = msubst (env(x \<mapsto> r)) (snd p)"
    if "p \<in> set props" for p
    using that Object.prems by (intro Object.IH [of p]) (auto simp: snds.simps)
  then show "expandType (msubst (env(x := None)) (Object props)) x r =
        msubst (env(x \<mapsto> r)) (Object props)"
    by simp
qed simp_all


lemma ran_update_subset: "ran (env(n \<mapsto> t)) \<subseteq> insert t (ran env)"
  by (auto simp: ran_def split: if_splits)

lemma closures_step:
  assumes "closedEnv env" and "freeVars t \<subseteq> dom env" and "ran env \<subseteq> S"
    and "closures env t \<subseteq> S" and "u \<in> closures env t"
  shows "u \<in> ran env \<or> stepClosed S u"
  using assms
proof (induction env t arbitrary: u rule: closures.induct)
  case (1 env params retType)
  have sub: "closures env (snd p) \<subseteq> S" if "p \<in> set params" for p
    using "1.prems"(4) that by auto
  have subr: "closures env retType \<subseteq> S"
    using "1.prems"(4) by auto
  consider (head) "u = msubst env (Func params retType)"
    | (param) p where "p \<in> set params" "u \<in> closures env (snd p)"
    | (ret) "u \<in> closures env retType"
    using "1.prems"(5) by auto
  then show "u \<in> ran env \<or> stepClosed S u"
  proof cases
    case head
    have "msubst env retType \<in> S"
      using subr msubst_in_closures [of env retType] by blast
    moreover have "msubst env (snd p) \<in> S" if "p \<in> set params" for p
      using sub [OF that] msubst_in_closures [of env "snd p"] by blast
    ultimately show ?thesis using head by simp
  next
    case param
    show ?thesis
    proof (rule "1.IH"(1) [OF param(1)])
      show "closedEnv env" by (rule "1.prems"(1))
      show "freeVars (snd p) \<subseteq> dom env" using "1.prems"(2) param(1) by auto
      show "ran env \<subseteq> S" by (rule "1.prems"(3))
      show "closures env (snd p) \<subseteq> S" by (rule sub [OF param(1)])
      show "u \<in> closures env (snd p)" by (rule param(2))
    qed
  next
    case ret
    show ?thesis
    proof (rule "1.IH"(2))
      show "closedEnv env" by (rule "1.prems"(1))
      show "freeVars retType \<subseteq> dom env" using "1.prems"(2) by auto
      show "ran env \<subseteq> S" by (rule "1.prems"(3))
      show "closures env retType \<subseteq> S" by (rule subr)
      show "u \<in> closures env retType" by (rule ret)
    qed
  qed
next
  case (2 env props)
  have sub: "closures env (snd p) \<subseteq> S" if "p \<in> set props" for p
    using "2.prems"(4) that by auto
  consider (head) "u = msubst env (Object props)"
    | (field) p where "p \<in> set props" "u \<in> closures env (snd p)"
    using "2.prems"(5) by auto
  then show "u \<in> ran env \<or> stepClosed S u"
  proof cases
    case head
    have "msubst env (snd p) \<in> S" if "p \<in> set props" for p
      using sub [OF that] msubst_in_closures [of env "snd p"] by blast
    then show ?thesis using head by simp
  next
    case field
    show ?thesis
    proof (rule "2.IH" [OF field(1)])
      show "closedEnv env" by (rule "2.prems"(1))
      show "freeVars (snd p) \<subseteq> dom env" using "2.prems"(2) field(1) by auto
      show "ran env \<subseteq> S" by (rule "2.prems"(3))
      show "closures env (snd p) \<subseteq> S" by (rule sub [OF field(1)])
      show "u \<in> closures env (snd p)" by (rule field(2))
    qed
  qed
next
  case (3 env name recType)
  define A where "A = msubst env (Rec name recType)"
  define env' where "env' = env(name \<mapsto> A)"
  have A_eq: "A = Rec name (msubst (env(name := None)) recType)"
    by (simp add: A_def)
  have A_in: "A \<in> S"
    using "3.prems"(4) msubst_in_closures [of env "Rec name recType"] by (auto simp: A_def)
  have A_closed: "freeVars A = {}"
    using freeVars_msubst [OF "3.prems"(1), of "Rec name recType"] "3.prems"(2)
    by (auto simp: A_def)
  have sub: "closures env' recType \<subseteq> S"
    using "3.prems"(4) by (auto simp: env'_def A_def)
  have unfold: "expandType (msubst (env(name := None)) recType) name A = msubst env' recType"
    unfolding env'_def by (rule expandType_msubst [OF "3.prems"(1)])
  have A_step: "stepClosed S A"
    using sub msubst_in_closures [of env' recType] unfold by (auto simp: A_eq)
  consider (head) "u = A" | (body) "u \<in> closures env' recType"
    using "3.prems"(5) by (auto simp: env'_def A_def)
  then show "u \<in> ran env \<or> stepClosed S u"
  proof cases
    case head
    then show ?thesis using A_step by simp
  next
    case body
    have "u \<in> ran env' \<or> stepClosed S u"
      unfolding env'_def A_def
    proof (rule "3.IH")
      show "closedEnv (env(name \<mapsto> msubst env (Rec name recType)))"
        using closedEnv_update [OF "3.prems"(1), of A name] A_closed by (simp add: A_def)
      show "freeVars recType \<subseteq> dom (env(name \<mapsto> msubst env (Rec name recType)))"
        using "3.prems"(2) by auto
      show "ran (env(name \<mapsto> msubst env (Rec name recType))) \<subseteq> S"
        using ran_update_subset [of env name A] A_in "3.prems"(3) by (auto simp: A_def)
      show "closures (env(name \<mapsto> msubst env (Rec name recType))) recType \<subseteq> S"
        using sub by (simp add: env'_def A_def)
      show "u \<in> closures (env(name \<mapsto> msubst env (Rec name recType))) recType"
        using body by (simp add: env'_def A_def)
    qed
    moreover have "ran env' \<subseteq> insert A (ran env)"
      unfolding env'_def by (rule ran_update_subset)
    ultimately show ?thesis using A_step by auto
  qed
next
  case (4 env)
  then show ?case by simp
next
  case (5 env)
  then show ?case by simp
next
  case (6 env name)
  have "name \<in> dom env" using "6.prems"(2) by simp
  then obtain v where "env name = Some v" by auto
  then have "u = v" "v \<in> ran env" using "6.prems"(5) by (auto simp: ran_def)
  then show "u \<in> ran env \<or> stepClosed S u" by simp
qed

lemma closures_closed:
  assumes "freeVars t = {}"
  shows "\<forall>u \<in> closures Map.empty t. stepClosed (closures Map.empty t) u"
proof
  fix u assume "u \<in> closures Map.empty t"
  then have "u \<in> ran (Map.empty :: string \<rightharpoonup> rtype) \<or> stepClosed (closures Map.empty t) u"
    using assms by (intro closures_step closedEnv_empty) auto
  then show "stepClosed (closures Map.empty t) u" by simp
qed

lemma self_in_closures: "t \<in> closures Map.empty t"
  using msubst_in_closures [of Map.empty t] by (simp add: msubst_empty)

lemma guardedBody_expandType: "guardedBody t \<Longrightarrow> guardedBody (expandType t v r)"
  by (induction t) auto

lemma leadRecs_expandType: "guardedBody t \<Longrightarrow> leadRecs (expandType t v r) = leadRecs t"
  by (induction t) auto

lemma contractive_expandType:
  "contractive t \<Longrightarrow> contractive r \<Longrightarrow> contractive (expandType t v r)"
  by (induction t v r rule: expandType.induct) (auto simp: guardedBody_expandType)

lemma uniqueFields_expandType:
  "uniqueFields t \<Longrightarrow> uniqueFields r \<Longrightarrow> uniqueFields (expandType t v r)"
  by (induction t v r rule: expandType.induct) (auto simp: comp_def)

lemma wellFormed_unfold:
  assumes "wellFormed (Rec name recType)"
  shows "wellFormed (expandType recType name (Rec name recType))"
proof -
  have "freeVars (expandType recType name (Rec name recType)) = freeVars recType - {name}"
    using assms by (intro freeVars_expandType_closed) (simp add: wellFormed_def)
  moreover have "contractive (expandType recType name (Rec name recType))"
    using assms by (intro contractive_expandType) (simp_all add: wellFormed_def)
  moreover have "uniqueFields (expandType recType name (Rec name recType))"
    using assms by (intro uniqueFields_expandType) (simp_all add: wellFormed_def)
  ultimately show ?thesis using assms by (simp add: wellFormed_def)
qed

lemma wellFormed_step: "wellFormed u \<Longrightarrow> stepClosed {v. wellFormed v} u"
proof (cases u)
  case (Rec name recType)
  assume "wellFormed u"
  then show ?thesis using Rec wellFormed_unfold by simp
qed (auto simp: wellFormed_def)

lemma stepClosed_Int: "stepClosed A u \<Longrightarrow> stepClosed B u \<Longrightarrow> stepClosed (A \<inter> B) u"
  by (cases u) auto

lemma stepClosed_mono: "stepClosed A u \<Longrightarrow> A \<subseteq> B \<Longrightarrow> stepClosed B u"
  by (cases u) auto

lemma universe_props:
  assumes "wellFormed a" and "wellFormed b"
  shows "finite (universe a b)" and "a \<in> universe a b" and "b \<in> universe a b"
    and "\<forall>u \<in> universe a b. stepClosed (universe a b) u \<and> wellFormed u"
proof -
  show "finite (universe a b)" by (simp add: universe_def finite_closures)
  show "a \<in> universe a b" "b \<in> universe a b"
    using assms by (simp_all add: universe_def self_in_closures)
  show "\<forall>u \<in> universe a b. stepClosed (universe a b) u \<and> wellFormed u"
  proof
    fix u assume u: "u \<in> universe a b"
    then have wf: "wellFormed u" by (simp add: universe_def)
    have "stepClosed (closures Map.empty a \<union> closures Map.empty b) u"
    proof (cases "u \<in> closures Map.empty a")
      case True
      then have "stepClosed (closures Map.empty a) u"
        using closures_closed [of a] assms(1) by (simp add: wellFormed_def)
      then show ?thesis by (rule stepClosed_mono) simp
    next
      case False
      then have "u \<in> closures Map.empty b" using u by (simp add: universe_def)
      then have "stepClosed (closures Map.empty b) u"
        using closures_closed [of b] assms(2) by (simp add: wellFormed_def)
      then show ?thesis by (rule stepClosed_mono) simp
    qed
    then have "stepClosed (universe a b) u"
      unfolding universe_def using wellFormed_step [OF wf] by (rule stepClosed_Int)
    then show "stepClosed (universe a b) u \<and> wellFormed u" using wf by simp
  qed
qed

lemma unwrapRecType_total:
  assumes T: "\<forall>u \<in> T. stepClosed T u \<and> wellFormed u"
  shows "t \<in> T \<Longrightarrow> \<exists>u \<in> T. unwrapRecType t = Some u \<and> \<not> isRec u"
proof (induction "leadRecs t" arbitrary: t rule: less_induct)
  case less
  show ?case
  proof (cases t)
    case (Rec name recType)
    let ?t' = "expandType recType name t"
    have "?t' \<in> T" using T less.prems Rec by auto
    moreover have "guardedBody recType"
      using T less.prems Rec by (auto simp: wellFormed_def)
    then have "leadRecs ?t' < leadRecs t"
      using Rec by (simp add: leadRecs_expandType)
    ultimately have "\<exists>u \<in> T. unwrapRecType ?t' = Some u \<and> \<not> isRec u"
      by (intro less.hyps)
    then show ?thesis using Rec by (simp add: unwrapRecType_Rec)
  qed (use less.prems in \<open>auto simp: unwrapRecType_nonRec\<close>)
qed

section \<open>Termination and reflexivity of the equi-recursive equality\<close>

lemma forEvery_total:
  "(\<And>x. x \<in> set xs \<Longrightarrow> \<exists>r. f x = Inr r) \<Longrightarrow> \<exists>r. forEvery f xs = Inr r"
proof (induction xs)
  case (Cons x xs)
  obtain r where "f x = Inr r" using Cons.prems [of x] by auto
  moreover have "\<exists>r. forEvery f xs = Inr r"
    using Cons.prems by (intro Cons.IH) auto
  ultimately show ?case by auto
qed auto

lemma typeEqNaive_no_throw:
  "freeVars s \<subseteq> dom m \<Longrightarrow> \<exists>r. typeEqNaive s t m = Inr r"
proof (induction t arbitrary: s m)
  case (Func params2 retType2)
  show "\<exists>r. typeEqNaive s (Func params2 retType2) m = Inr r"
  proof (cases s)
    case (Func params1 retType1)
    have "\<exists>r. typeEqNaive (snd (fst pp)) (snd (snd pp)) m = Inr r"
      if "pp \<in> set (zip params1 params2)" for pp
    proof -
      have "fst pp \<in> set params1" "snd pp \<in> set params2"
        using that set_zip_leftD [of "fst pp" "snd pp" params1 params2]
          set_zip_rightD [of "fst pp" "snd pp" params1 params2] by simp_all
      then show ?thesis
        using Func.prems Func
        by (intro Func.IH(1) [of "snd pp" "snd (snd pp)"]) (auto simp: snds.simps)
    qed
    then obtain r where r: "forEvery (\<lambda>pp. typeEqNaive (snd (fst pp)) (snd (snd pp)) m)
        (zip params1 params2) = Inr r"
      using forEvery_total [of "zip params1 params2"
          "\<lambda>pp. typeEqNaive (snd (fst pp)) (snd (snd pp)) m"] by blast
    have "\<exists>r. typeEqNaive retType1 retType2 m = Inr r"
      using Func.prems Func by (intro Func.IH(2)) auto
    then show ?thesis using Func r by auto
  qed auto
next
  case (Object props2)
  show "\<exists>r. typeEqNaive s (Object props2) m = Inr r"
  proof (cases s)
    case (Object props1)
    have "\<exists>r. (case find (\<lambda>prop. fst prop = fst prop2) props1 of
                  None \<Rightarrow> Inr False
                | Some prop1 \<Rightarrow> typeEqNaive (snd prop1) (snd prop2) m) = Inr r"
      if "prop2 \<in> set props2" for prop2
    proof (cases "find (\<lambda>prop. fst prop = fst prop2) props1")
      case (Some prop1)
      then have "prop1 \<in> set props1" by (auto simp: find_Some_iff)
      then have "\<exists>r. typeEqNaive (snd prop1) (snd prop2) m = Inr r"
        using that Object.prems Object
        by (intro Object.IH [of prop2 "snd prop2"]) (auto simp: snds.simps)
      then show ?thesis using Some by simp
    qed auto
    then have "\<exists>r. forEvery (\<lambda>prop2.
                 case find (\<lambda>prop. fst prop = fst prop2) props1 of
                   None \<Rightarrow> Inr False
                 | Some prop1 \<Rightarrow> typeEqNaive (snd prop1) (snd prop2) m) props2 = Inr r"
      by (rule forEvery_total)
    then show ?thesis using Object by auto
  qed auto
next
  case (Rec name2 recType2)
  show "\<exists>r. typeEqNaive s (Rec name2 recType2) m = Inr r"
  proof (cases s)
    case (Rec name1 recType1)
    have "freeVars recType1 \<subseteq> dom (m(name1 \<mapsto> name2))"
      using Rec.prems Rec by auto
    then have "\<exists>r. typeEqNaive recType1 recType2 (m(name1 \<mapsto> name2)) = Inr r"
      by (rule Rec.IH)
    then show ?thesis using Rec by simp
  qed auto
next
  case (TypeVar name2)
  have "freeVars s \<subseteq> dom m" by (rule TypeVar)
  then show "\<exists>r. typeEqNaive s (TypeVar name2) m = Inr r"
    by (cases s) auto
qed auto

lemma hasSeen_total:
  "(\<And>p. p \<in> set seen \<Longrightarrow> freeVars (fst p) = {} \<and> freeVars (snd p) = {}) \<Longrightarrow>
   \<exists>r. hasSeen a b seen = Inr r"
proof (induction seen)
  case (Cons p seen)
  obtain s1 s2 where p: "p = (s1, s2)" by (cases p)
  have "freeVars s1 = {}" "freeVars s2 = {}" using Cons.prems [of p] p by auto
  then obtain r1 r2 where "typeEqNaive s1 a Map.empty = Inr r1"
      "typeEqNaive s2 b Map.empty = Inr r2"
    using typeEqNaive_no_throw [of s1 Map.empty a] typeEqNaive_no_throw [of s2 Map.empty b]
    by auto
  moreover have "\<exists>r. hasSeen a b seen = Inr r"
    using Cons.prems by (intro Cons.IH) auto
  ultimately show ?case using p by auto
qed auto

lemma hasSeen_member:
  assumes "(a, b) \<in> set seen" and "wellFormed a" and "wellFormed b"
    and "\<And>p. p \<in> set seen \<Longrightarrow> freeVars (fst p) = {} \<and> freeVars (snd p) = {}"
  shows "hasSeen a b seen = Inr True"
  using assms(1,4)
proof (induction seen)
  case (Cons p seen)
  obtain s1 s2 where p: "p = (s1, s2)" by (cases p)
  have closed: "freeVars s1 = {}" "freeVars s2 = {}" using Cons.prems(2) [of p] p by auto
  obtain r1 r2 where r: "typeEqNaive s1 a Map.empty = Inr r1"
      "typeEqNaive s2 b Map.empty = Inr r2"
    using closed typeEqNaive_no_throw [of s1 Map.empty a]
      typeEqNaive_no_throw [of s2 Map.empty b] by auto
  show ?case
  proof (cases "r1 \<and> r2")
    case True
    then show ?thesis using p r by simp
  next
    case False
    have "(s1, s2) \<noteq> (a, b)"
    proof
      assume "(s1, s2) = (a, b)"
      then have "typeEqNaive s1 a Map.empty = Inr True" "typeEqNaive s2 b Map.empty = Inr True"
        using assms(2,3) by (auto simp: wellFormed_def intro!: typeEqNaive_refl)
      then show False using r False by simp
    qed
    then have "(a, b) \<in> set seen" using Cons.prems(1) p by auto
    then have "hasSeen a b seen = Inr True"
      using Cons.prems(2) by (intro Cons.IH) auto
    then show ?thesis using p r False by auto
  qed
qed auto

lemma forEveryO_total:
  assumes "\<And>x. x \<in> set xs \<Longrightarrow> \<exists>r. f x = Some (Inr r) \<and> (Q x \<longrightarrow> r)"
  shows "\<exists>r. forEveryO f xs = Some (Inr r) \<and> ((\<forall>x \<in> set xs. Q x) \<longrightarrow> r)"
  using assms
proof (induction xs)
  case (Cons x xs)
  obtain r where r: "f x = Some (Inr r)" "Q x \<longrightarrow> r" using Cons.prems [of x] by auto
  have "\<exists>r. forEveryO f xs = Some (Inr r) \<and> ((\<forall>x \<in> set xs. Q x) \<longrightarrow> r)"
    using Cons.prems by (intro Cons.IH) auto
  then show ?case using r by auto
qed auto

lemma typeEqSub_Func:
  "hasSeen (Func params1 retType1) (Func params2 retType2) seen = Inr False \<Longrightarrow>
   typeEqSub (Func params1 retType1) (Func params2 retType2) seen =
     (if length params1 \<noteq> length params2 then Some (Inr False)
      else Option.bind
             (forEveryO (\<lambda>pp. typeEqSub (snd (fst pp)) (snd (snd pp)) seen)
                (zip params1 params2))
             (\<lambda>r. case r of
                    Inl e \<Rightarrow> Some (Inl e)
                  | Inr ok \<Rightarrow>
                      if \<not> ok then Some (Inr False)
                      else typeEqSub retType1 retType2 seen))"
  by (subst typeEqSub.simps) simp

lemma typeEqSub_Object:
  "hasSeen (Object props1) (Object props2) seen = Inr False \<Longrightarrow>
   typeEqSub (Object props1) (Object props2) seen =
     (if length props1 \<noteq> length props2 then Some (Inr False)
      else forEveryO (\<lambda>prop2.
             case find (\<lambda>prop. fst prop = fst prop2) props1 of
               None \<Rightarrow> Some (Inr False)
             | Some prop1 \<Rightarrow> typeEqSub (snd prop1) (snd prop2) seen) props2)"
  by (subst typeEqSub.simps) simp

lemma typeEqSub_other:
  assumes "hasSeen a b seen = Inr False" and "\<not> isRec a" and "\<not> isRec b"
    and "\<forall>n. b \<noteq> TypeVar n"
    and "\<not> (\<exists>ps1 r1 ps2 r2. a = Func ps1 r1 \<and> b = Func ps2 r2)"
    and "\<not> (\<exists>ps1 ps2. a = Object ps1 \<and> b = Object ps2)"
  shows "typeEqSub a b seen = Some (Inr (a = b))"
  using assms by (subst typeEqSub.simps) (cases a; cases b; simp)

lemma size_param_less: "p \<in> set ps \<Longrightarrow> size (snd p) < size (Func ps r)"
  using size_snd_less_prod [of p ps] by simp

lemma size_prop_less: "p \<in> set ps \<Longrightarrow> size (snd p) < size (Object ps)"
  using size_snd_less_prod [of p ps] by simp

lemma zip_same_eq: "pp \<in> set (zip xs xs) \<Longrightarrow> fst pp = snd pp"
  by (cases pp) (auto simp: set_zip)

lemma typeEqSub_Func_total:
  assumes IH: "\<And>x y. x \<in> T \<Longrightarrow> y \<in> T \<Longrightarrow>
      size x + size y < size (Func params1 retType1) + size (Func params2 retType2) \<Longrightarrow>
      \<exists>r. typeEqSub x y seen = Some (Inr r) \<and> (x = y \<longrightarrow> r)"
    and seen: "hasSeen (Func params1 retType1) (Func params2 retType2) seen = Inr False"
    and T: "retType1 \<in> T" "retType2 \<in> T" "\<forall>p \<in> set params1. snd p \<in> T"
      "\<forall>p \<in> set params2. snd p \<in> T"
  shows "\<exists>r. typeEqSub (Func params1 retType1) (Func params2 retType2) seen = Some (Inr r) \<and>
    (Func params1 retType1 = Func params2 retType2 \<longrightarrow> r)"
proof (cases "length params1 = length params2")
  case False
  then show ?thesis using seen by (auto simp: typeEqSub_Func)
next
  case True
  have "\<exists>r. typeEqSub (snd (fst pp)) (snd (snd pp)) seen = Some (Inr r) \<and>
          (fst pp = snd pp \<longrightarrow> r)"
    if "pp \<in> set (zip params1 params2)" for pp
  proof -
    have mem: "fst pp \<in> set params1" "snd pp \<in> set params2"
      using that set_zip_leftD [of "fst pp" "snd pp" params1 params2]
        set_zip_rightD [of "fst pp" "snd pp" params1 params2] by simp_all
    have "\<exists>r. typeEqSub (snd (fst pp)) (snd (snd pp)) seen = Some (Inr r) \<and>
          (snd (fst pp) = snd (snd pp) \<longrightarrow> r)"
    proof (rule IH)
      show "snd (fst pp) \<in> T" "snd (snd pp) \<in> T" using mem T by auto
      show "size (snd (fst pp)) + size (snd (snd pp))
          < size (Func params1 retType1) + size (Func params2 retType2)"
        using size_param_less [OF mem(1), of retType1] size_param_less [OF mem(2), of retType2]
        by linarith
    qed
    then show ?thesis by auto
  qed
  then obtain r where r: "forEveryO (\<lambda>pp. typeEqSub (snd (fst pp)) (snd (snd pp)) seen)
        (zip params1 params2) = Some (Inr r)"
      "(\<forall>pp \<in> set (zip params1 params2). fst pp = snd pp) \<longrightarrow> r"
    using forEveryO_total [of "zip params1 params2"
        "\<lambda>pp. typeEqSub (snd (fst pp)) (snd (snd pp)) seen" "\<lambda>pp. fst pp = snd pp"]
    by blast
  have "\<exists>r. typeEqSub retType1 retType2 seen = Some (Inr r) \<and> (retType1 = retType2 \<longrightarrow> r)"
    using T by (intro IH) auto
  then obtain r' where r': "typeEqSub retType1 retType2 seen = Some (Inr r')"
      "retType1 = retType2 \<longrightarrow> r'"
    by blast
  have eq: "typeEqSub (Func params1 retType1) (Func params2 retType2) seen =
      (if \<not> r then Some (Inr False) else Some (Inr r'))"
    using seen True r(1) r'(1) by (simp add: typeEqSub_Func)
  have "r \<and> r'" if "Func params1 retType1 = Func params2 retType2"
    using that r(2) r'(2) zip_same_eq [of _ params2] by auto
  then show ?thesis using eq by auto
qed

lemma typeEqSub_Object_total:
  assumes IH: "\<And>x y. x \<in> T \<Longrightarrow> y \<in> T \<Longrightarrow>
      size x + size y < size (Object props1) + size (Object props2) \<Longrightarrow>
      \<exists>r. typeEqSub x y seen = Some (Inr r) \<and> (x = y \<longrightarrow> r)"
    and seen: "hasSeen (Object props1) (Object props2) seen = Inr False"
    and T: "\<forall>p \<in> set props1. snd p \<in> T" "\<forall>p \<in> set props2. snd p \<in> T"
    and uniq: "distinct (map fst props1)"
  shows "\<exists>r. typeEqSub (Object props1) (Object props2) seen = Some (Inr r) \<and>
    (Object props1 = Object props2 \<longrightarrow> r)"
proof (cases "length props1 = length props2")
  case False
  then show ?thesis using seen by (auto simp: typeEqSub_Object)
next
  case True
  let ?f = "\<lambda>prop2. case find (\<lambda>prop. fst prop = fst prop2) props1 of
               None \<Rightarrow> Some (Inr False)
             | Some prop1 \<Rightarrow> typeEqSub (snd prop1) (snd prop2) seen"
  let ?Q = "\<lambda>prop2. find (\<lambda>prop. fst prop = fst prop2) props1 = Some prop2"
  have "\<exists>r. ?f prop2 = Some (Inr r) \<and> (?Q prop2 \<longrightarrow> r)" if mem2: "prop2 \<in> set props2" for prop2
  proof (cases "find (\<lambda>prop. fst prop = fst prop2) props1")
    case None
    then show ?thesis by auto
  next
    case (Some prop1)
    then have mem1: "prop1 \<in> set props1" by (auto simp: find_Some_iff)
    have "\<exists>r. typeEqSub (snd prop1) (snd prop2) seen = Some (Inr r) \<and>
          (snd prop1 = snd prop2 \<longrightarrow> r)"
    proof (rule IH)
      show "snd prop1 \<in> T" "snd prop2 \<in> T" using mem1 mem2 T by auto
      show "size (snd prop1) + size (snd prop2) < size (Object props1) + size (Object props2)"
        using size_prop_less [OF mem1] size_prop_less [OF mem2] by linarith
    qed
    then show ?thesis using Some by auto
  qed
  then obtain r where r: "forEveryO ?f props2 = Some (Inr r)"
      "(\<forall>prop2 \<in> set props2. ?Q prop2) \<longrightarrow> r"
    using forEveryO_total [of props2 ?f ?Q] by blast
  have eq: "typeEqSub (Object props1) (Object props2) seen = Some (Inr r)"
    using seen True r(1) by (simp add: typeEqSub_Object)
  have "r" if "Object props1 = Object props2"
    using that r(2) uniq find_unique [of props1] by auto
  then show ?thesis using eq by auto
qed

lemma unwrapRecType_result_nonRec:
  assumes T: "\<forall>u \<in> T. stepClosed T u \<and> wellFormed u" and "t \<in> T"
    and "unwrapRecType t = Some u"
  shows "\<not> isRec u \<and> u \<in> T"
  using unwrapRecType_total [OF T assms(2)] assms(3) by auto

lemma typeEqSub_total:
  assumes fin: "finite T" and T: "\<forall>u \<in> T. stepClosed T u \<and> wellFormed u"
  shows "a \<in> T \<Longrightarrow> b \<in> T \<Longrightarrow> set seen \<subseteq> T \<times> T \<Longrightarrow>
    \<exists>r. typeEqSub a b seen = Some (Inr r) \<and> ((a = b \<or> unwrapRecType b = Some a) \<longrightarrow> r)"
proof (induction "card (T \<times> T - set seen)" arbitrary: a b seen rule: less_induct)
  case less
  note outer = less.hyps
  note seenT = less.prems(3)
  have closedSeen: "freeVars (fst p) = {} \<and> freeVars (snd p) = {}" if "p \<in> set seen" for p
  proof -
    have "fst p \<in> T" "snd p \<in> T" using that seenT by auto
    then show ?thesis using T by (auto simp: wellFormed_def)
  qed
  show ?case using less.prems(1,2)
  proof (induction "size a + size b" arbitrary: a b rule: less_induct)
    case inner: less
    note aT = inner.prems(1) and bT = inner.prems(2)
    have wfa: "wellFormed a" and wfb: "wellFormed b" using aT bT T by auto
    obtain found where found: "hasSeen a b seen = Inr found"
      using hasSeen_total [of seen a b] closedSeen by blast
    show ?case
    proof (cases found)
      case True
      then show ?thesis using found by (auto simp: typeEqSub_seen)
    next
      case False
      then have notSeen: "hasSeen a b seen = Inr False" using found by simp
      have notin: "(a, b) \<notin> set seen"
        using hasSeen_member [of a b seen] wfa wfb closedSeen notSeen by auto
      let ?seen' = "seen @ [(a, b)]"
      have seen'T: "set ?seen' \<subseteq> T \<times> T" using seenT aT bT by auto
      have diff: "T \<times> T - set ?seen' = (T \<times> T - set seen) - {(a, b)}" by auto
      have "(a, b) \<in> T \<times> T - set seen" using aT bT notin by simp
      moreover have "finite (T \<times> T - set seen)" using fin by simp
      ultimately have "card ((T \<times> T - set seen) - {(a, b)}) < card (T \<times> T - set seen)"
        by (rule card_Diff1_less [rotated])
      then have card: "card (T \<times> T - set ?seen') < card (T \<times> T - set seen)"
        unfolding diff .
      show ?thesis
      proof (cases "isRec a")
        case True
        obtain a' where a': "a' \<in> T" "unwrapRecType a = Some a'" "\<not> isRec a'"
          using unwrapRecType_total [OF T aT] by auto
        have eq: "typeEqSub a b seen = typeEqSub a' b ?seen'"
          using notSeen True a'(2) by (simp add: typeEqSub_unfold_left)
        have "\<exists>r. typeEqSub a' b ?seen' = Some (Inr r) \<and>
            ((a' = b \<or> unwrapRecType b = Some a') \<longrightarrow> r)"
          using card a'(1) bT seen'T by (rule outer)
        moreover have "unwrapRecType b = Some a'" if "a = b \<or> unwrapRecType b = Some a"
          using that a'(2) True unwrapRecType_result_nonRec [OF T bT, of a] by auto
        ultimately show ?thesis using eq by auto
      next
        case nra: False
        show ?thesis
        proof (cases "isRec b")
          case True
          obtain b' where b': "b' \<in> T" "unwrapRecType b = Some b'" "\<not> isRec b'"
            using unwrapRecType_total [OF T bT] by auto
          have eq: "typeEqSub a b seen = typeEqSub a b' ?seen'"
            using notSeen nra True b'(2) by (simp add: typeEqSub_unfold_right)
          have "\<exists>r. typeEqSub a b' ?seen' = Some (Inr r) \<and>
              ((a = b' \<or> unwrapRecType b' = Some a) \<longrightarrow> r)"
            using card aT b'(1) seen'T by (rule outer)
          moreover have "a = b'" if "a = b \<or> unwrapRecType b = Some a"
            using that b'(2) True nra by auto
          ultimately show ?thesis using eq by auto
        next
          case nrb: False
          have same: "a = b" if "a = b \<or> unwrapRecType b = Some a"
            using that nrb by (auto simp: unwrapRecType_nonRec)
          have IH: "\<exists>r. typeEqSub x y seen = Some (Inr r) \<and> (x = y \<longrightarrow> r)"
            if "x \<in> T" "y \<in> T" "size x + size y < size a + size b" for x y
            using inner.hyps [OF that(3) that(1) that(2)] by auto
          have noVar: "\<forall>n. b \<noteq> TypeVar n"
            using wfb by (auto simp: wellFormed_def)
          have stepA: "stepClosed T a" and stepB: "stepClosed T b" using aT bT T by auto
          consider (func) ps1 r1 ps2 r2 where "a = Func ps1 r1" "b = Func ps2 r2"
            | (object) ps1 ps2 where "a = Object ps1" "b = Object ps2"
            | (other) "\<not> (\<exists>ps1 r1 ps2 r2. a = Func ps1 r1 \<and> b = Func ps2 r2)"
                "\<not> (\<exists>ps1 ps2. a = Object ps1 \<and> b = Object ps2)"
            by blast
          then have "\<exists>r. typeEqSub a b seen = Some (Inr r) \<and> (a = b \<longrightarrow> r)"
          proof cases
            case func
            show ?thesis
              unfolding func
            proof (rule typeEqSub_Func_total [where T = T])
              show "hasSeen (Func ps1 r1) (Func ps2 r2) seen = Inr False"
                using notSeen func by simp
              show "r1 \<in> T" "r2 \<in> T" "\<forall>p \<in> set ps1. snd p \<in> T" "\<forall>p \<in> set ps2. snd p \<in> T"
                using stepA stepB func by auto
              show "\<exists>r. typeEqSub x y seen = Some (Inr r) \<and> (x = y \<longrightarrow> r)"
                if "x \<in> T" "y \<in> T" "size x + size y < size (Func ps1 r1) + size (Func ps2 r2)"
                for x y
                using that func by (intro IH) auto
            qed
          next
            case object
            show ?thesis
              unfolding object
            proof (rule typeEqSub_Object_total [where T = T])
              show "hasSeen (Object ps1) (Object ps2) seen = Inr False"
                using notSeen object by simp
              show "\<forall>p \<in> set ps1. snd p \<in> T" "\<forall>p \<in> set ps2. snd p \<in> T"
                using stepA stepB object by auto
              show "distinct (map fst ps1)"
                using wfa object by (simp add: wellFormed_def)
              show "\<exists>r. typeEqSub x y seen = Some (Inr r) \<and> (x = y \<longrightarrow> r)"
                if "x \<in> T" "y \<in> T" "size x + size y < size (Object ps1) + size (Object ps2)"
                for x y
                using that object by (intro IH) auto
            qed
          next
            case other
            have "typeEqSub a b seen = Some (Inr (a = b))"
              using notSeen nra nrb noVar other by (rule typeEqSub_other)
            then show ?thesis by simp
          qed
          then show ?thesis using same by auto
        qed
      qed
    qed
  qed
qed

text \<open>
  The check evaluated on the stream type of rec.ts: equal to its copy with the bound name
  respelled and the fields reordered, not equal when a field type differs.
\<close>

lemma typeEq_stream_respelled:
  "typeEq (Rec ''X'' (Object [(''num'', Number), (''rest'', Func [] (TypeVar ''X''))]))
     (Rec ''Y'' (Object [(''rest'', Func [] (TypeVar ''Y'')), (''num'', Number)])) =
   Some (Inr True)"
  by (simp add: typeEq_def typeEqSub_seen typeEqSub_unfold_left typeEqSub_unfold_right
      typeEqSub_Func typeEqSub_Object typeEqSub_other unwrapRecType_Rec unwrapRecType_nonRec)

lemma typeEq_stream_mismatch:
  "typeEq (Rec ''X'' (Object [(''num'', Number), (''rest'', Func [] (TypeVar ''X''))]))
     (Rec ''Y'' (Object [(''rest'', Func [] (TypeVar ''Y'')), (''num'', Boolean)])) =
   Some (Inr False)"
  by (simp add: typeEq_def typeEqSub_seen typeEqSub_unfold_left typeEqSub_unfold_right
      typeEqSub_Func typeEqSub_Object typeEqSub_other unwrapRecType_Rec unwrapRecType_nonRec)




text \<open>
  Claim C9, amended. Comparing a closed, contractive type with unique field names with
  itself, starting from an empty seen list, returns \<open>true\<close>; this holds for the
  self-referential stream type \<open>Rec X. {num: number, rest: () => X}\<close>.
\<close>

theorem typeEq_reflexive: "wellFormed t \<longrightarrow> typeEq t t = Some (Inr True)"
proof
  assume wf: "wellFormed t"
  note U = universe_props [of t t]
  have T: "\<forall>u \<in> universe t t. stepClosed (universe t t) u \<and> wellFormed u"
    using wf U(4) by simp
  have "\<exists>r. typeEqSub t t [] = Some (Inr r) \<and> ((t = t \<or> unwrapRecType t = Some t) \<longrightarrow> r)"
    using wf U(1,2,3) T by (intro typeEqSub_total [where T = "universe t t"]) simp_all
  then show "typeEq t t = Some (Inr True)" by (auto simp: typeEq_def)
qed

theorem typeEq_reflexive_witness:
  "typeEq (Rec ''X'' (Object [(''num'', Number), (''rest'', Func [] (TypeVar ''X''))]))
     (Rec ''X'' (Object [(''num'', Number), (''rest'', Func [] (TypeVar ''X''))])) = Some (Inr True)"
  using typeEq_reflexive [of "Rec ''X'' (Object [(''num'', Number), (''rest'', Func [] (TypeVar ''X''))])"]
  by (simp add: wellFormed_def)

text \<open>
  Claim C9 as stated fails: comparing the closed type \<open>Rec X. X\<close> with itself does not
  return.
\<close>

theorem typeEq_self_diverges:
  "freeVars (Rec ''X'' (TypeVar ''X'')) = {} \<and>
   typeEq (Rec ''X'' (TypeVar ''X'')) (Rec ''X'' (TypeVar ''X'')) = None"
  by (simp add: typeEq_def typeEqSub_unfold_left unwrapRecType_loop)

section \<open>The equi-recursive equality against the algorithm of the specification\<close>

lemma typeEqSub_eqBody: "typeEqSub a b seen = eqBody unwrapRecType typeEqSub a b seen"
  unfolding eqBody_def by (rule typeEqSub.simps)

lemma typeEquivalentRec_eqBody:
  "typeEquivalentRec a b seen = eqBody (\<lambda>t. Some (unfoldRec t)) typeEquivalentRec a b seen"
  unfolding eqBody_def Option.bind_lunit by (rule typeEquivalentRec.simps)

lemma typeEqSub_raw:
  assumes "typeEqSub a b seen = Some r"
    and "\<And>self a b seen r.
      (\<And>a b seen r. self a b seen = Some r \<Longrightarrow> P a b seen r) \<Longrightarrow>
      eqBody unwrapRecType self a b seen = Some r \<Longrightarrow> P a b seen r"
  shows "P a b seen r"
  by (rule typeEqSub.raw_induct [where P = P, OF _ assms(1)], rule assms(2), assumption,
      unfold eqBody_def, assumption)

lemma typeEquivalentRec_raw:
  assumes "typeEquivalentRec a b seen = Some r"
    and "\<And>self a b seen r.
      (\<And>a b seen r. self a b seen = Some r \<Longrightarrow> P a b seen r) \<Longrightarrow>
      eqBody (\<lambda>t. Some (unfoldRec t)) self a b seen = Some r \<Longrightarrow> P a b seen r"
  shows "P a b seen r"
  by (rule typeEquivalentRec.raw_induct [where P = P, OF _ assms(1)], rule assms(2), assumption,
      unfold eqBody_def Option.bind_lunit, assumption)

lemma plainBody_expandType: "plainBody t \<Longrightarrow> plainBody (expandType t v r)"
  by (cases t) auto

lemma plainBody_not_Rec: "plainBody t \<Longrightarrow> \<not> isRec t"
  by (cases t) auto

lemma plainRecs_expandType:
  "plainRecs t \<Longrightarrow> plainRecs r \<Longrightarrow> plainRecs (expandType t v r)"
  by (induction t v r rule: expandType.induct) (auto simp: plainBody_expandType)

lemma plainRecs_unfoldRec: "plainRecs t \<Longrightarrow> plainRecs (unfoldRec t)"
  by (cases t) (auto simp: plainRecs_expandType)

lemma unwrapRecType_plain:
  "isRec t \<Longrightarrow> plainRecs t \<Longrightarrow> unwrapRecType t = Some (unfoldRec t)"
  by (cases t)
     (auto simp: unwrapRecType_Rec unwrapRecType_nonRec plainBody_expandType plainBody_not_Rec)

lemma forEveryO_transfer:
  "forEveryO f xs = Some r \<Longrightarrow> (\<And>x r. x \<in> set xs \<Longrightarrow> f x = Some r \<Longrightarrow> g x = Some r) \<Longrightarrow>
   forEveryO g xs = Some r"
proof (induction xs)
  case (Cons x xs)
  from Cons.prems(1) obtain r0 where r0: "f x = Some r0"
    by (cases "f x") auto
  then have g0: "g x = Some r0" using Cons.prems(2) by simp
  show ?case
  proof (cases r0)
    case (Inl e)
    then show ?thesis using Cons.prems(1) r0 g0 by auto
  next
    case (Inr ok)
    show ?thesis
    proof (cases ok)
      case True
      then have "forEveryO f xs = Some r" using Cons.prems(1) r0 Inr by simp
      then have "forEveryO g xs = Some r" using Cons.prems(2) by (intro Cons.IH) auto
      then show ?thesis using g0 Inr True by simp
    next
      case False
      then show ?thesis using Cons.prems(1) r0 g0 Inr by auto
    qed
  qed
qed simp

lemma eqBody_throw: "hasSeen a b seen = Inl e \<Longrightarrow> eqBody U F a b seen = Some (Inl e)"
  by (simp add: eqBody_def)

lemma eqBody_found: "hasSeen a b seen = Inr True \<Longrightarrow> eqBody U F a b seen = Some (Inr True)"
  by (simp add: eqBody_def)

lemma eqBody_transfer:
  assumes body: "eqBody U F a b seen = Some r"
    and sim: "\<And>x y s r. F x y s = Some r \<Longrightarrow> plainRecs x \<Longrightarrow> plainRecs y \<Longrightarrow> G x y s = Some r"
    and pa: "plainRecs a" and pb: "plainRecs b"
    and U: "\<And>t. isRec t \<Longrightarrow> plainRecs t \<Longrightarrow> U t = Some (unfoldRec t)"
    and V: "\<And>t. isRec t \<Longrightarrow> plainRecs t \<Longrightarrow> V t = Some (unfoldRec t)"
  shows "eqBody V G a b seen = Some r"
proof -
  consider (throw) e where "hasSeen a b seen = Inl e"
    | (found) "hasSeen a b seen = Inr True"
    | (recA) "hasSeen a b seen = Inr False" "isRec a"
    | (recB) "hasSeen a b seen = Inr False" "\<not> isRec a" "isRec b"
    | (struct) "hasSeen a b seen = Inr False" "\<not> isRec a" "\<not> isRec b"
    by (cases "hasSeen a b seen") auto
  then show ?thesis
  proof cases
    case throw
    show ?thesis
      using body eqBody_throw [OF throw, of U F] eqBody_throw [OF throw, of V G] by simp
  next
    case found
    show ?thesis
      using body eqBody_found [OF found, of U F] eqBody_found [OF found, of V G] by simp
  next
    case recA
    then have "F (unfoldRec a) b (seen @ [(a, b)]) = Some r"
      using body U [OF recA(2) pa] by (simp add: eqBody_def)
    then have "G (unfoldRec a) b (seen @ [(a, b)]) = Some r"
      using pa pb by (intro sim plainRecs_unfoldRec)
    then show ?thesis using recA V [OF recA(2) pa] by (simp add: eqBody_def)
  next
    case recB
    then have "F a (unfoldRec b) (seen @ [(a, b)]) = Some r"
      using body U [OF recB(3) pb] by (simp add: eqBody_def)
    then have "G a (unfoldRec b) (seen @ [(a, b)]) = Some r"
      using pa pb by (intro sim plainRecs_unfoldRec)
    then show ?thesis using recB V [OF recB(3) pb] by (simp add: eqBody_def)
  next
    case struct
    consider (func) ps1 r1 ps2 r2 where "a = Func ps1 r1" "b = Func ps2 r2"
        "length ps1 = length ps2"
      | (object) ps1 ps2 where "a = Object ps1" "b = Object ps2" "length ps1 = length ps2"
      | (other) "\<not> (\<exists>ps1 r1 ps2 r2. a = Func ps1 r1 \<and> b = Func ps2 r2 \<and> length ps1 = length ps2)"
          "\<not> (\<exists>ps1 ps2. a = Object ps1 \<and> b = Object ps2 \<and> length ps1 = length ps2)"
      by blast
    then show ?thesis
    proof cases
      case func
      let ?f = "\<lambda>pp. F (snd (fst pp)) (snd (snd pp)) seen"
      let ?g = "\<lambda>pp. G (snd (fst pp)) (snd (snd pp)) seen"
      let ?k = "\<lambda>self r. case r of Inl e \<Rightarrow> Some (Inl e)
                 | Inr ok \<Rightarrow> if \<not> ok then Some (Inr False) else self r1 r2 seen"
      have "Option.bind (forEveryO ?f (zip ps1 ps2)) (?k F) = Some r"
        using body struct func by (simp add: eqBody_def)
      then obtain r0 where r0: "forEveryO ?f (zip ps1 ps2) = Some r0" "?k F r0 = Some r"
        by (auto simp: bind_eq_Some_conv)
      have "forEveryO ?g (zip ps1 ps2) = Some r0"
        using r0(1)
      proof (rule forEveryO_transfer)
        fix pp r' assume pp: "pp \<in> set (zip ps1 ps2)" and "?f pp = Some r'"
        have "fst pp \<in> set ps1" "snd pp \<in> set ps2"
          using pp set_zip_leftD [of "fst pp" "snd pp" ps1 ps2]
            set_zip_rightD [of "fst pp" "snd pp" ps1 ps2] by simp_all
        then have "plainRecs (snd (fst pp))" "plainRecs (snd (snd pp))"
          using pa pb func by auto
        with \<open>?f pp = Some r'\<close> show "?g pp = Some r'" by (intro sim)
      qed
      moreover have "?k G r0 = Some r"
      proof (cases r0)
        case (Inr ok)
        show ?thesis
        proof (cases ok)
          case True
          then have "F r1 r2 seen = Some r" using r0(2) Inr by simp
          then have "G r1 r2 seen = Some r" using pa pb func by (intro sim) auto
          then show ?thesis using Inr True by simp
        qed (use r0(2) Inr in auto)
      qed (use r0(2) in auto)
      ultimately show ?thesis using struct func by (simp add: eqBody_def)
    next
      case object
      let ?f = "\<lambda>fieldB. case find (\<lambda>fieldA. fst fieldA = fst fieldB) ps1 of
                  None \<Rightarrow> Some (Inr False)
                | Some fieldA \<Rightarrow> F (snd fieldA) (snd fieldB) seen"
      let ?g = "\<lambda>fieldB. case find (\<lambda>fieldA. fst fieldA = fst fieldB) ps1 of
                  None \<Rightarrow> Some (Inr False)
                | Some fieldA \<Rightarrow> G (snd fieldA) (snd fieldB) seen"
      have "forEveryO ?f ps2 = Some r"
        using body struct object by (simp add: eqBody_def)
      then have "forEveryO ?g ps2 = Some r"
      proof (rule forEveryO_transfer)
        fix fieldB r' assume mem: "fieldB \<in> set ps2" and f: "?f fieldB = Some r'"
        show "?g fieldB = Some r'"
        proof (cases "find (\<lambda>fieldA. fst fieldA = fst fieldB) ps1")
          case None
          then show ?thesis using f by auto
        next
          case (Some fieldA)
          then have "fieldA \<in> set ps1" by (auto simp: find_Some_iff)
          then have "plainRecs (snd fieldA)" "plainRecs (snd fieldB)"
            using mem pa pb object by auto
          moreover have "F (snd fieldA) (snd fieldB) seen = Some r'" using f Some by simp
          ultimately have "G (snd fieldA) (snd fieldB) seen = Some r'" by (intro sim)
          then show ?thesis using Some by simp
        qed
      qed
      then show ?thesis using struct object by (simp add: eqBody_def)
    next
      case other
      have "eqBody V G a b seen = eqBody U F a b seen"
        using struct other by (cases a; cases b; simp add: eqBody_def)
      then show ?thesis using body by simp
    qed
  qed
qed

lemma typeEqSub_refines:
  assumes "typeEqSub a b seen = Some r"
  shows "plainRecs a \<longrightarrow> plainRecs b \<longrightarrow> typeEquivalentRec a b seen = Some r"
  using assms
proof (rule typeEqSub_raw)
  fix self a b seen r
  assume IH: "\<And>a b seen r. self a b seen = Some r \<Longrightarrow>
      plainRecs a \<longrightarrow> plainRecs b \<longrightarrow> typeEquivalentRec a b seen = Some r"
    and body: "eqBody unwrapRecType self a b seen = Some r"
  show "plainRecs a \<longrightarrow> plainRecs b \<longrightarrow> typeEquivalentRec a b seen = Some r"
  proof (intro impI)
    assume pa: "plainRecs a" and pb: "plainRecs b"
    have "eqBody (\<lambda>t. Some (unfoldRec t)) typeEquivalentRec a b seen = Some r"
      by (rule eqBody_transfer [OF body _ pa pb])
         (use IH in \<open>auto simp: unwrapRecType_plain\<close>)
    then show "typeEquivalentRec a b seen = Some r"
      by (simp add: typeEquivalentRec_eqBody [symmetric])
  qed
qed

lemma typeEquivalentRec_refines:
  assumes "typeEquivalentRec a b seen = Some r"
  shows "plainRecs a \<longrightarrow> plainRecs b \<longrightarrow> typeEqSub a b seen = Some r"
  using assms
proof (rule typeEquivalentRec_raw)
  fix self a b seen r
  assume IH: "\<And>a b seen r. self a b seen = Some r \<Longrightarrow>
      plainRecs a \<longrightarrow> plainRecs b \<longrightarrow> typeEqSub a b seen = Some r"
    and body: "eqBody (\<lambda>t. Some (unfoldRec t)) self a b seen = Some r"
  show "plainRecs a \<longrightarrow> plainRecs b \<longrightarrow> typeEqSub a b seen = Some r"
  proof (intro impI)
    assume pa: "plainRecs a" and pb: "plainRecs b"
    have "eqBody unwrapRecType typeEqSub a b seen = Some r"
      by (rule eqBody_transfer [OF body _ pa pb])
         (use IH in \<open>auto simp: unwrapRecType_plain\<close>)
    then show "typeEqSub a b seen = Some r"
      by (simp add: typeEqSub_eqBody [symmetric])
  qed
qed

lemma hasSeen_membership:
  assumes "\<And>p. p \<in> set seen \<Longrightarrow> freeVars (fst p) = {} \<and> freeVars (snd p) = {}"
  shows "hasSeen a b seen =
    Inr (\<exists>p \<in> set seen. typeEqNaive (fst p) a Map.empty = Inr True \<and>
                          typeEqNaive (snd p) b Map.empty = Inr True)"
  using assms
proof (induction seen)
  case (Cons p seen)
  obtain s1 s2 where p: "p = (s1, s2)" by (cases p)
  have "freeVars s1 = {}" "freeVars s2 = {}" using Cons.prems [of p] p by auto
  then obtain r1 r2 where r: "typeEqNaive s1 a Map.empty = Inr r1"
      "typeEqNaive s2 b Map.empty = Inr r2"
    using typeEqNaive_no_throw [of s1 Map.empty a] typeEqNaive_no_throw [of s2 Map.empty b]
    by auto
  have "hasSeen a b seen =
    Inr (\<exists>p \<in> set seen. typeEqNaive (fst p) a Map.empty = Inr True \<and>
                          typeEqNaive (snd p) b Map.empty = Inr True)"
    using Cons.prems by (intro Cons.IH) auto
  then show ?case using p r by auto
qed simp

text \<open>
  Claim C1, amended. Membership in the seen pairs is decided componentwise by the naive
  equality under the empty binding map (no throw can occur when the seen types are
  closed), and on types in which the body of every \<open>Rec\<close> is a primitive, a function
  or a record, \<open>typeEqSub\<close> is exactly the algorithm of the specification: same
  result, same throw, same cases of not returning.
\<close>

theorem typeEqSub_algorithm:
  "((\<forall>p \<in> set seen. freeVars (fst p) = {} \<and> freeVars (snd p) = {}) \<longrightarrow>
      hasSeen a b seen =
        Inr (\<exists>p \<in> set seen. typeEqNaive (fst p) a Map.empty = Inr True \<and>
                              typeEqNaive (snd p) b Map.empty = Inr True)) \<and>
   (plainRecs a \<and> plainRecs b \<longrightarrow> typeEqSub a b seen = typeEquivalentRec a b seen)"
proof (intro conjI impI)
  assume "\<forall>p \<in> set seen. freeVars (fst p) = {} \<and> freeVars (snd p) = {}"
  then show "hasSeen a b seen =
        Inr (\<exists>p \<in> set seen. typeEqNaive (fst p) a Map.empty = Inr True \<and>
                              typeEqNaive (snd p) b Map.empty = Inr True)"
    by (intro hasSeen_membership) simp
next
  assume plain: "plainRecs a \<and> plainRecs b"
  show "typeEqSub a b seen = typeEquivalentRec a b seen"
  proof (cases "typeEqSub a b seen")
    case None
    show ?thesis
    proof (cases "typeEquivalentRec a b seen")
      case (Some r)
      then have "typeEqSub a b seen = Some r"
        using typeEquivalentRec_refines plain by blast
      then show ?thesis using None by simp
    qed (use None in simp)
  next
    case (Some r)
    then have "typeEquivalentRec a b seen = Some r"
      using typeEqSub_refines plain by blast
    then show ?thesis using Some by simp
  qed
qed

theorem typeEqSub_algorithm_witness:
  "hasSeen (Object [(''num'', Number)]) Number
     [(Rec ''X'' (Object [(''num'', Number), (''rest'', Func [] (TypeVar ''X''))]), Number)] = Inr False \<and>
   typeEqSub (Rec ''X'' (Object [(''num'', Number), (''rest'', Func [] (TypeVar ''X''))]))
     (Rec ''Y'' (Object [(''num'', Number), (''rest'', Func [] (TypeVar ''Y''))])) [] =
   typeEquivalentRec (Rec ''X'' (Object [(''num'', Number), (''rest'', Func [] (TypeVar ''X''))]))
     (Rec ''Y'' (Object [(''num'', Number), (''rest'', Func [] (TypeVar ''Y''))])) []"
  using typeEqSub_algorithm [of
      "[(Rec ''X'' (Object [(''num'', Number), (''rest'', Func [] (TypeVar ''X''))]), Number)]"
      "Object [(''num'', Number)]" Number]
    typeEqSub_algorithm [of "[]"
      "Rec ''X'' (Object [(''num'', Number), (''rest'', Func [] (TypeVar ''X''))])"
      "Rec ''Y'' (Object [(''num'', Number), (''rest'', Func [] (TypeVar ''Y''))])"]
  by simp

lemma typeEquivalentRec_seen:
  "hasSeen a b seen = Inr True \<Longrightarrow> typeEquivalentRec a b seen = Some (Inr True)"
  by (subst typeEquivalentRec.simps) simp

lemma typeEquivalentRec_unfold_left:
  "hasSeen a b seen = Inr False \<Longrightarrow> isRec a \<Longrightarrow>
   typeEquivalentRec a b seen = typeEquivalentRec (unfoldRec a) b (seen @ [(a, b)])"
  by (subst typeEquivalentRec.simps) simp

text \<open>
  Claim C1 as stated fails: on \<open>Rec X. X\<close> the stated algorithm unfolds once, finds the
  pair among the seen pairs and returns \<open>true\<close>, while \<open>typeEqSub\<close> unfolds with
  \<open>unwrapRecType\<close>, which keeps unfolding and does not return.
\<close>

theorem typeEqSub_unfolds_repeatedly:
  "typeEquivalentRec (Rec ''X'' (TypeVar ''X'')) Number [] = Some (Inr True) \<and>
   typeEqSub (Rec ''X'' (TypeVar ''X'')) Number [] = None"
  by (simp add: typeEquivalentRec_unfold_left typeEquivalentRec_seen
      typeEqSub_unfold_left unwrapRecType_loop)

end
